theory Spec2Isabelle
  imports Main
begin

unbundle bit_operations_syntax

section \<open>JavaScript number operations used by the recognizer\<close>

text \<open>
  The engine is TypeScript: every number is a double, and the bitwise operators work on
  the 32-bit integer obtained from their operand. All numbers of the engine are integers
  far below \<open>2 ^ 53\<close>, so they are modelled as \<open>int\<close>; \<open>to_int32\<close> and \<open>to_uint32\<close> are
  the conversions \<open>&\<close>, \<open>>>\<close>, \<open><<\<close> and \<open>>>>\<close> apply first. A shift count is taken
  modulo 32.
\<close>

definition to_int32 :: "int \<Rightarrow> int" where
  "to_int32 x = signed_take_bit 31 x"

definition to_uint32 :: "int \<Rightarrow> int" where
  "to_uint32 x = take_bit 32 x"

definition js_and :: "int \<Rightarrow> int \<Rightarrow> int" where
  "js_and a b = to_int32 a AND to_int32 b"

definition js_shr :: "int \<Rightarrow> nat \<Rightarrow> int" where
  "js_shr a n = drop_bit (n mod 32) (to_int32 a)"

definition js_ushr :: "int \<Rightarrow> nat \<Rightarrow> int" where
  "js_ushr a n = drop_bit (n mod 32) (to_uint32 a)"

definition js_shl :: "int \<Rightarrow> nat \<Rightarrow> int" where
  "js_shl a n = to_int32 (push_bit (n mod 32) a)"

text \<open>
  \<open>bytecode[index]\<close> on a \<open>Uint32Array\<close>: the word, or \<open>undefined\<close> (here \<open>None\<close>) when
  the index is outside the array. Under a bitwise operator \<open>undefined\<close> is 0, which is
  what \<open>word_at\<close> returns. It is also used for the scanner pointer that \<open>scan_to\<close>,
  \<open>hash_jump\<close> and \<open>index_jump\<close> read behind the instruction: as the entry state of a
  scanner, \<open>undefined\<close> behaves like 0 (the driver loop runs a state only if
  \<open>state > 0\<close>).
\<close>

definition bc_at :: "int list \<Rightarrow> int \<Rightarrow> int option" where
  "bc_at bc i = (if 0 \<le> i \<and> i < int (length bc) then Some (bc ! nat i) else None)"

definition word_at :: "int list \<Rightarrow> int \<Rightarrow> int" where
  "word_at bc i = (case bc_at bc i of None \<Rightarrow> 0 | Some w \<Rightarrow> w)"

section \<open>Data model\<close>

text \<open>
  Modelled from the spec: \<open>KernelToken\<close> (the engine imports it from the common
  package, which is not part of the sources). Its fields are those of the spec's Token,
  the ones the engine reads and writes; a new token has them all at 0. \<open>copy\<close> and
  \<open>impersonate\<close> copy every field, so with values instead of objects \<open>copy\<close> is the
  identity and \<open>a.impersonate(b)\<close> is the assignment of \<open>b\<close> to \<open>a\<close>. The field
  \<open>type\<close> is \<open>tk_type\<close> here.
\<close>

record KernelToken =
  tk_type :: int
  byte_offset :: int
  byte_length :: int
  codepoint_offset :: int
  codepoint_length :: int
  line_number :: int
  line_offset :: int

definition KernelToken_new :: KernelToken where
  "KernelToken_new = \<lparr> tk_type = 0, byte_offset = 0, byte_length = 0,
     codepoint_offset = 0, codepoint_length = 0, line_number = 0, line_offset = 0 \<rparr>"

text \<open>
  The \<open>ParseAction\<close> union. Argument order: \<open>REDUCE body length production\<close>,
  \<open>SKIP offset length line token_type\<close>,
  \<open>ERROR last_state tk_type tk_offset tk_length production\<close>, \<open>FORK pointer\<close>,
  \<open>LAZY state_pointer line offset length\<close>.
\<close>

datatype ParseAction =
    REDUCE int int int
  | SHIFT KernelToken
  | SKIP int int int int
  | ACCEPT
  | ERROR int int int int int
  | FORK int
  | TOKEN KernelToken
  | LAZY int int int int

datatype error =
    OutOfFuel
  | ScannerForkNotImplemented
  | ScannerYieldedInvalidAction
  | ForkHandlerUndefined

text \<open>
  Modelled from the spec: \<open>KernelStack\<close> (file \<open>stack.js\<close> is not part of the sources).
  The spec describes it as a stack of (state pointer, symbol accumulator snapshot)
  pairs. The engine reads \<open>pointer\<close> and \<open>meta_stack\<close> directly, and reads
  \<open>meta_stack[pointer + 1]\<close> right after a pop, so the two arrays keep their slots above
  \<open>pointer\<close>: they are maps from slot to value, 0 where nothing was written. The
  stack is empty when \<open>pointer < 1\<close>; \<open>reset\<close> leaves the entry pointer as the only entry.
\<close>

record KernelStack =
  state_stack :: "int \<Rightarrow> int"
  meta_stack :: "int \<Rightarrow> int"
  pointer :: int

definition push_state :: "KernelStack \<Rightarrow> int \<Rightarrow> int \<Rightarrow> KernelStack" where
  "push_state s kernel_state accumulator =
     s\<lparr> pointer := pointer s + 1,
        state_stack := (state_stack s)(pointer s + 1 := kernel_state),
        meta_stack := (meta_stack s)(pointer s + 1 := accumulator) \<rparr>"

definition pop_state :: "KernelStack \<Rightarrow> int \<times> KernelStack" where
  "pop_state s = (state_stack s (pointer s), s\<lparr> pointer := pointer s - 1 \<rparr>)"

definition read_state :: "KernelStack \<Rightarrow> int" where
  "read_state s = state_stack s (pointer s)"

definition swap_state :: "KernelStack \<Rightarrow> int \<Rightarrow> KernelStack" where
  "swap_state s kernel_state = s\<lparr> state_stack := (state_stack s)(pointer s := kernel_state) \<rparr>"

definition stack_reset :: "KernelStack \<Rightarrow> int \<Rightarrow> KernelStack" where
  "stack_reset s entry_pointer = push_state (s\<lparr> pointer := 0 \<rparr>) entry_pointer 0"

definition KernelStack_new :: KernelStack where
  "KernelStack_new = \<lparr> state_stack = (\<lambda>_. 0), meta_stack = (\<lambda>_. 0), pointer = 0 \<rparr>"

text \<open>
  What the engine imports and this repository's sources do not contain is a parameter
  of the model: the five constants of the common package, and the operations of
  \<open>ByteReader\<close> on a reader of any type \<open>'r\<close>. A reader is a value, so \<open>clone\<close> is the
  identity; \<open>next\<close> and \<open>setCursorTo\<close> return the moved reader (\<open>setCursorTo\<close> with
  its boolean result).
\<close>

record 'r env =
  normal_state_mask :: int
  goto_state_mask :: int
  instruction_pointer_mask :: int
  state_index_mask :: int
  skipped_scan_prod :: int
  rd_next :: "'r \<Rightarrow> int \<Rightarrow> 'r"
  rd_END :: "'r \<Rightarrow> bool"
  rd_offset_at_end :: "'r \<Rightarrow> int \<Rightarrow> bool"
  rd_setCursorTo :: "'r \<Rightarrow> KernelToken \<Rightarrow> bool \<times> 'r"
  rd_byte :: "'r \<Rightarrow> int"
  rd_codepoint :: "'r \<Rightarrow> int"
  rd_class :: "'r \<Rightarrow> int"
  rd_codepoint_byte_length :: "'r \<Rightarrow> int"
  rd_codepoint_length :: "'r \<Rightarrow> int"
  rd_line_count :: "'r \<Rightarrow> int"
  rd_line_offset :: "'r \<Rightarrow> int"

text \<open>
  The two sinks of this file: the handler a caller passes to \<open>start\<close> (it receives the
  action; the model appends it to \<open>emitted\<close>), and the closure \<open>scanner\<close> passes to the
  nested engine, which throws on everything but a \<open>TOKEN\<close>.
\<close>

datatype handler = CallerHandler | ScannerHandler

text \<open>
  The fields of \<open>StateIterator\<close>. The array \<open>tokens\<close> always holds the current token
  \<open>tokens[0]\<close> and the lookahead \<open>tokens[1]\<close> (the constructor creates both, and the only
  changes of its length are \<open>push\<close> and \<open>length = 2\<close>); it is \<open>tok0\<close>, \<open>tok1\<close> and the
  list \<open>peeks\<close> of the tokens pushed behind them. \<open>emitted\<close> is the sequence of actions
  handed to the handler so far. The fields \<open>buffer\<close> and \<open>forks\<close> are never used by the
  engine and are left out; the fork handler is an argument of the functions that use it.
\<close>

record 'r StateIterator =
  stack :: KernelStack
  reader :: 'r
  tok0 :: KernelToken
  tok1 :: KernelToken
  peeks :: "KernelToken list"
  bytecode :: "int list"
  symbol_accumulator :: int
  ACTION_BUFFER_EMPTY :: bool
  production_id :: int
  SCANNER :: bool
  handler :: handler
  emitted :: "ParseAction list"

definition StateIterator_new :: "'r \<Rightarrow> int list \<Rightarrow> int \<Rightarrow> bool \<Rightarrow> 'r StateIterator" where
  "StateIterator_new base_byte_reader bytecode_buffer entry_pointer scanner_role =
     \<lparr> stack = stack_reset KernelStack_new entry_pointer,
       reader = base_byte_reader,
       tok0 = KernelToken_new, tok1 = KernelToken_new, peeks = [],
       bytecode = bytecode_buffer,
       symbol_accumulator = 0,
       ACTION_BUFFER_EMPTY = True,
       production_id = - 1,
       SCANNER = scanner_role,
       handler = CallerHandler,
       emitted = [] \<rparr>"

section \<open>Emitting actions\<close>

definition emit :: "'r StateIterator \<Rightarrow> ParseAction \<Rightarrow> error + 'r StateIterator" where
  "emit st action =
     (case handler st of
        CallerHandler \<Rightarrow> Inr (st\<lparr> emitted := emitted st @ [action] \<rparr>)
      | ScannerHandler \<Rightarrow>
          (case action of
             TOKEN t \<Rightarrow> Inr (st\<lparr> emitted := emitted st @ [action] \<rparr>)
           | FORK p \<Rightarrow> Inl ScannerForkNotImplemented
           | _ \<Rightarrow> Inl ScannerYieldedInvalidAction))"

definition and_then :: "error + 'a \<Rightarrow> ('a \<Rightarrow> error + 'b) \<Rightarrow> error + 'b" where
  "and_then m f = (case m of Inl e \<Rightarrow> Inl e | Inr x \<Rightarrow> f x)"

fun emit_all :: "'r StateIterator \<Rightarrow> ParseAction list \<Rightarrow> error + 'r StateIterator" where
  "emit_all st [] = Inr st"
| "emit_all st (a # as) = and_then (emit st a) (\<lambda>st'. emit_all st' as)"

definition emitShift :: "'r StateIterator \<Rightarrow> error + 'r StateIterator" where
  "emitShift st =
     (let st1 = st\<lparr> ACTION_BUFFER_EMPTY := False,
                    symbol_accumulator := symbol_accumulator st + 1 \<rparr>;
          token = tok1 st1;
          prev_token = tok0 st1
      in and_then
           (if byte_offset prev_token + byte_length prev_token \<noteq> byte_offset token
            then emit st1 (SKIP (codepoint_offset prev_token)
                    (codepoint_offset token
                       - (codepoint_length prev_token + codepoint_offset prev_token))
                    (line_number prev_token) 0)
            else Inr st1)
           (\<lambda>st2. emit st2 (SHIFT token)))"

definition advance_token :: "KernelToken \<Rightarrow> KernelToken" where
  "advance_token token =
     token\<lparr> codepoint_offset := codepoint_offset token + codepoint_length token,
            byte_offset := byte_offset token + byte_length token,
            codepoint_length := 0,
            byte_length := 0,
            tk_type := 0 \<rparr>"

definition consume :: "'r env \<Rightarrow> 'r StateIterator \<Rightarrow> int \<Rightarrow> error + 'r StateIterator" where
  "consume env st instruction =
     (let token = (if js_and instruction 1 \<noteq> 0
                   then (tok1 st)\<lparr> codepoint_length := 0, byte_length := 0 \<rparr>
                   else tok1 st);
          st1 = st\<lparr> tok1 := token \<rparr>
      in if SCANNER st1 then
           Inr (st1\<lparr> reader := rd_next env (reader st1) (byte_length token),
                     tok1 := advance_token token \<rparr>)
         else
           and_then (emitShift st1)
             (\<lambda>st2. Inr (st2\<lparr> reader := rd_next env (reader st2) (byte_length token),
                              tok1 := advance_token token,
                              tok0 := advance_token token \<rparr>)))"

definition emitReduce :: "'r StateIterator \<Rightarrow> int \<Rightarrow> int \<Rightarrow> error + 'r StateIterator" where
  "emitReduce st symbol_length body_id =
     emit (st\<lparr> ACTION_BUFFER_EMPTY := False \<rparr>)
          (REDUCE body_id symbol_length (production_id st))"

definition set_production :: "'r StateIterator \<Rightarrow> int \<Rightarrow> 'r StateIterator" where
  "set_production st instruction = st\<lparr> production_id := js_and instruction 0xFFFFFFF \<rparr>"

definition reduce ::
  "'r StateIterator \<Rightarrow> int \<Rightarrow> int \<Rightarrow> int \<Rightarrow> error + (int \<times> 'r StateIterator)" where
  "reduce st instruction index recover_data =
     (let body_id = js_and instruction 0xFFFF;
          len = js_and (js_shr instruction 16) 0xFFF
      in and_then
           (if js_and body_id 0xFFFF = 0xFFFF then
              (let accumulated_symbols = symbol_accumulator st - js_and recover_data 0xFFFF;
                   fn_id = js_and (js_shr instruction 16) 0x0FFF
               in emitReduce st accumulated_symbols fn_id)
            else
              emitReduce (st\<lparr> symbol_accumulator := symbol_accumulator st - (len - 1) \<rparr>)
                len body_id)
           (\<lambda>st1.
              if js_and (word_at (bytecode st1) index) 0xF0000000 = 0x30000000
              then Inr (index + 1, set_production st1 (word_at (bytecode st1) index))
              else Inr (index, st1)))"

definition try_lazy :: "int \<Rightarrow> int \<Rightarrow> int" where
  "try_lazy index instruction = index + 2"

definition pass :: bool where
  "pass = False"

definition advanced_return :: "int \<Rightarrow> bool \<Rightarrow> bool" where
  "advanced_return instruction fail_mode =
     (if js_and instruction 1 \<noteq> 0 then fail_mode else True)"

definition assert_consume ::
  "'r env \<Rightarrow> 'r StateIterator \<Rightarrow> int \<Rightarrow> int \<Rightarrow> error + (int \<times> 'r StateIterator)" where
  "assert_consume env st index instruction =
     (let mode = js_and instruction 0x0F000000;
          val = js_and instruction 0x00FFFFFF;
          token = tok1 st;
          r = reader st
      in if mode = 0x00000000 then
           (let st1 = st\<lparr> tok1 := token\<lparr> byte_length := rd_codepoint_byte_length env r,
                                           codepoint_length := rd_codepoint_length env r \<rparr> \<rparr>
            in if val \<noteq> rd_class env r then Inr (2, st1)
               else and_then (consume env st1 0) (\<lambda>st2. Inr (index, st2)))
         else if mode = 0x01000000 then
           (let st1 = st\<lparr> tok1 := token\<lparr> byte_length := rd_codepoint_byte_length env r,
                                           codepoint_length := rd_codepoint_length env r \<rparr> \<rparr>
            in if val \<noteq> rd_codepoint env r then Inr (2, st1)
               else and_then (consume env st1 0) (\<lambda>st2. Inr (index, st2)))
         else if mode = 0x02000000 then
           (let st1 = st\<lparr> tok1 := token\<lparr> byte_length := 1, codepoint_length := 1 \<rparr> \<rparr>
            in if val \<noteq> rd_byte env r then Inr (2, st1)
               else and_then (consume env st1 0) (\<lambda>st2. Inr (index, st2)))
         else and_then (consume env st 0) (\<lambda>st2. Inr (index, st2)))"

definition set_token ::
  "'r env \<Rightarrow> 'r StateIterator \<Rightarrow> int \<Rightarrow> int \<Rightarrow> error + (int \<times> 'r StateIterator)" where
  "set_token env st instruction index =
     (let val = js_and instruction 0xFFFFFF
      in and_then (if js_and instruction 0x01000000 \<noteq> 0 then consume env st 0 else Inr st)
           (\<lambda>st1.
              if js_and instruction 0x08000000 \<noteq> 0 then
                Inr (index,
                     st1\<lparr> production_id := val,
                          tok0 := (tok0 st1)\<lparr>
                            tk_type := val,
                            byte_length := byte_offset (tok1 st1) - byte_offset (tok0 st1),
                            codepoint_length :=
                              codepoint_offset (tok1 st1) - codepoint_offset (tok0 st1) \<rparr> \<rparr>)
              else
                Inr (index,
                     st1\<lparr> tok1 := (tok1 st1)\<lparr> codepoint_length := val, byte_length := val \<rparr> \<rparr>)))"

definition repeat :: "int \<Rightarrow> int \<Rightarrow> int" where
  "repeat index instruction = index - js_and 0xFFFFFFF instruction"

definition push_fail_state :: "'r env \<Rightarrow> 'r StateIterator \<Rightarrow> int \<Rightarrow> 'r StateIterator" where
  "push_fail_state env st instruction =
     (let fail_state_pointer = js_ushr instruction 0;
          current_state = js_and (read_state (stack st)) (instruction_pointer_mask env)
      in if current_state \<noteq> js_and (js_ushr fail_state_pointer 0) (instruction_pointer_mask env)
         then st\<lparr> stack := push_state (stack st) (js_ushr fail_state_pointer 0)
                               (symbol_accumulator st) \<rparr>
         else st\<lparr> stack := swap_state (stack st) fail_state_pointer \<rparr>)"

section \<open>Scanning, input values and jump tables\<close>

text \<open>
  The method \<open>scanner\<close> is defined below, after \<open>start\<close>, which it runs on a nested
  engine. The instructions that call it take it as the argument \<open>scan\<close>: applied to the
  reader and the bytecode of the calling engine, the token to resolve and the scanner's
  entry pointer, it returns the resolved token or the exception it threw. It changes
  nothing of the calling engine but the token it is given.
\<close>

type_synonym 'r scanner_fn = "'r \<Rightarrow> int list \<Rightarrow> KernelToken \<Rightarrow> int \<Rightarrow> error + KernelToken"

definition type_in_targets :: "int list \<Rightarrow> int \<Rightarrow> int \<Rightarrow> int \<Rightarrow> bool" where
  "type_in_targets bc start end ty = (\<exists>i \<in> set [start..end - 1]. bc_at bc i = Some ty)"

definition scan_to_advance :: "KernelToken \<Rightarrow> KernelToken" where
  "scan_to_advance token =
     (if byte_length token > 0 then
        token\<lparr> byte_offset := byte_offset token + byte_length token,
               codepoint_offset := codepoint_offset token + codepoint_offset token,
               byte_length := 0, codepoint_length := 0 \<rparr>
      else
        token\<lparr> byte_offset := byte_offset token + 1,
               codepoint_offset := codepoint_offset token + 1,
               byte_length := 0, codepoint_length := 0 \<rparr>)"

text \<open>
  The loop \<open>while (RUN)\<close> of \<open>scan_to\<close>: \<open>Some token\<close> when a target type matched,
  \<open>None\<close> for the \<open>return 1\<close> at the end of the input.
\<close>

fun scan_to_loop ::
  "'r env \<Rightarrow> 'r scanner_fn \<Rightarrow> 'r \<Rightarrow> int list \<Rightarrow> int \<Rightarrow> int \<Rightarrow> int \<Rightarrow> nat \<Rightarrow> KernelToken
     \<Rightarrow> error + KernelToken option" where
  "scan_to_loop env scan r bc scanner_index start end 0 temp_token = Inl OutOfFuel"
| "scan_to_loop env scan r bc scanner_index start end (Suc n) temp_token =
     and_then (scan r bc temp_token scanner_index)
       (\<lambda>token.
          if type_in_targets bc start end (tk_type token) then Inr (Some token)
          else if rd_offset_at_end env r (byte_offset token) then Inr None
          else scan_to_loop env scan r bc scanner_index start end n (scan_to_advance token))"

definition scan_to ::
  "'r env \<Rightarrow> 'r scanner_fn \<Rightarrow> nat \<Rightarrow> 'r StateIterator \<Rightarrow> int \<Rightarrow> int
     \<Rightarrow> error + (int \<times> 'r StateIterator)" where
  "scan_to env scan n st index instruction =
     (let len = js_and instruction 0xFFFF;
          scanner_index = word_at (bytecode st) index;
          prev_token = tok0 st;
          scan_back = (js_and instruction 0x00100000 > 0);
          start = index + 1;
          end = index + 1 + len;
          temp_token =
            (if scan_back then
               (tok1 st)\<lparr> tk_type := 0,
                           byte_offset := byte_offset prev_token,
                           codepoint_offset := codepoint_offset prev_token,
                           byte_length := 0, codepoint_length := 0 \<rparr>
             else (tok1 st)\<lparr> tk_type := 0 \<rparr>)
      in and_then
           (scan_to_loop env scan (reader st) (bytecode st) scanner_index start end n temp_token)
           (\<lambda>found. case found of
                None \<Rightarrow> Inr (1, st)
              | Some t \<Rightarrow> Inr (end, if scan_back then st else st\<lparr> tok1 := t \<rparr>)))"

text \<open>
  The inner \<open>switch (input_type)\<close> of \<open>get_input_value\<close>, which the two lexer modes
  share up to the token they write: \<open>put\<close> stores the token back (the lookahead
  \<open>tokens[1]\<close>, or the token pushed last).
\<close>

definition read_input ::
  "'r env \<Rightarrow> 'r scanner_fn \<Rightarrow> 'r StateIterator \<Rightarrow> int \<Rightarrow> int \<Rightarrow> KernelToken
     \<Rightarrow> (KernelToken \<Rightarrow> 'r StateIterator) \<Rightarrow> error + (int \<times> 'r StateIterator)" where
  "read_input env scan st input_type scanner_start_pointer token put =
     (let r = reader st
      in if input_type = 1 then
           and_then (scan r (bytecode st) token scanner_start_pointer)
             (\<lambda>t. Inr (tk_type t, put t))
         else if input_type = 2 then
           Inr (rd_class env r,
                put (token\<lparr> byte_length := rd_codepoint_byte_length env r,
                             codepoint_length := rd_codepoint_length env r \<rparr>))
         else if input_type = 3 then
           Inr (rd_codepoint env r,
                put (token\<lparr> byte_length := rd_codepoint_byte_length env r,
                             codepoint_length := rd_codepoint_length env r \<rparr>))
         else if input_type = 4 then
           Inr (rd_byte env r, put (token\<lparr> byte_length := 1, codepoint_length := 1 \<rparr>))
         else Inr (0, put token))"

definition get_input_value ::
  "'r env \<Rightarrow> 'r scanner_fn \<Rightarrow> 'r StateIterator \<Rightarrow> int \<Rightarrow> int \<Rightarrow> int
     \<Rightarrow> error + (int \<times> 'r StateIterator)" where
  "get_input_value env scan st input_type token_transition scanner_start_pointer =
     (if input_type > 0 then
        (if token_transition = 1 then
           (let token = (if peeks st = [] then tok1 st else last (peeks st));
                st1 = st\<lparr> reader := rd_next env (reader st) (byte_length token) \<rparr>
            in if rd_END env (reader st1) then Inr (0, st1)
               else
                 read_input env scan st1 input_type scanner_start_pointer
                   (token\<lparr> tk_type := 0, byte_offset := byte_offset token + byte_length token \<rparr>)
                   (\<lambda>t. st1\<lparr> peeks := peeks st1 @ [t] \<rparr>))
         else
           (if rd_END env (reader st) then Inr (1, st)
            else if peeks st \<noteq> [] then
              (let moved = rd_setCursorTo env (reader st) (tok1 st);
                   st1 = st\<lparr> peeks := [], reader := snd moved \<rparr>
               in if \<not> fst moved then Inr (0, st1\<lparr> ACTION_BUFFER_EMPTY := False \<rparr>)
                  else
                    read_input env scan st1 input_type scanner_start_pointer
                      ((tok1 st1)\<lparr> tk_type := 0 \<rparr>) (\<lambda>t. st1\<lparr> tok1 := t \<rparr>))
            else
              read_input env scan st input_type scanner_start_pointer
                (tok1 st) (\<lambda>t. st\<lparr> tok1 := t \<rparr>)))
      else Inr (production_id st, st))"

text \<open>The loop \<open>while (true)\<close> of \<open>hash_jump\<close>, from the first probed cell on.\<close>

fun hash_probe :: "int list \<Rightarrow> int \<Rightarrow> int \<Rightarrow> int \<Rightarrow> int \<Rightarrow> nat \<Rightarrow> int \<Rightarrow> error + int" where
  "hash_probe bc hash_table_start instruction_field_start instruction_field_size
       input_value 0 hash_index = Inl OutOfFuel"
| "hash_probe bc hash_table_start instruction_field_start instruction_field_size
       input_value (Suc n) hash_index =
     (let cell = word_at bc (hash_table_start + hash_index);
          val = js_and cell 0x7FF;
          nxt = js_and (js_ushr cell 22) 0x3FF - 512
      in if val = input_value then
           Inr (instruction_field_start + js_and (js_shr cell 11) 0x7FF)
         else if nxt = 0 then Inr (instruction_field_size + instruction_field_start)
         else hash_probe bc hash_table_start instruction_field_start instruction_field_size
                input_value n (hash_index + nxt))"

definition hash_jump ::
  "'r env \<Rightarrow> 'r scanner_fn \<Rightarrow> nat \<Rightarrow> 'r StateIterator \<Rightarrow> int \<Rightarrow> int
     \<Rightarrow> error + (int \<times> 'r StateIterator)" where
  "hash_jump env scan n st index instruction =
     (let input_type = js_and (js_shr instruction 22) 0x7;
          lexer_type = js_and (js_shr instruction 26) 0x3;
          scanner_start_pointer = word_at (bytecode st) index;
          table_data = word_at (bytecode st) (index + 1);
          modulus = js_shl 1 (nat (js_and (js_ushr table_data 16) 0xFFFF)) - 1;
          table_size = js_and table_data 0xFFFF;
          hash_table_start = index + 2;
          instruction_field_start = hash_table_start + table_size;
          instruction_field_size = js_and instruction 0xFFFF
      in and_then (get_input_value env scan st input_type lexer_type scanner_start_pointer)
           (\<lambda>(input_value, st1).
              and_then
                (hash_probe (bytecode st1) hash_table_start instruction_field_start
                   instruction_field_size input_value n (js_and input_value modulus))
                (\<lambda>target. Inr (target, st1))))"

definition index_jump ::
  "'r env \<Rightarrow> 'r scanner_fn \<Rightarrow> 'r StateIterator \<Rightarrow> int \<Rightarrow> int
     \<Rightarrow> error + (int \<times> 'r StateIterator)" where
  "index_jump env scan st index instruction =
     (let scanner_start_pointer = word_at (bytecode st) index;
          table_data = word_at (bytecode st) (index + 1);
          basis = js_and instruction 0xFFFF;
          input_type = js_and (js_shr instruction 22) 0x7;
          lexer_type = js_and (js_shr instruction 26) 0x3
      in and_then (get_input_value env scan st input_type lexer_type scanner_start_pointer)
           (\<lambda>(raw_value, st1).
              let input_value = raw_value - basis;
                  number_of_rows = js_shr table_data 16;
                  row_size = js_and table_data 0xFFFF
              in if input_value \<ge> 0 \<and> input_value < number_of_rows
                 then Inr (index + 2 + input_value * row_size + row_size, st1)
                 else Inr (index + 2, st1)))"

section \<open>Control transfer\<close>

function goto_chain :: "int list \<Rightarrow> int \<Rightarrow> KernelStack \<Rightarrow> int \<Rightarrow> int \<times> KernelStack" where
  "goto_chain bc accumulator s index =
     (if js_and (word_at bc index) 0xF0000000 = 0x20000000
      then goto_chain bc accumulator (push_state s (word_at bc index) accumulator) (index + 1)
      else (index, s))"
  by pat_completeness auto
termination
proof (relation "measure (\<lambda>(bc, accumulator, s, index). nat (int (length bc) - index))")
  show "wf (measure (\<lambda>(bc, accumulator, s, index). nat (int (length bc) - index)))"
    by simp
next
  fix bc :: "int list" and accumulator :: int and s :: KernelStack and index :: int
  assume tagged: "js_and (word_at bc index) 0xF0000000 = 0x20000000"
  have "0 \<le> index \<and> index < int (length bc)"
  proof (rule ccontr)
    assume "\<not> (0 \<le> index \<and> index < int (length bc))"
    then have "word_at bc index = 0"
      by (auto simp add: word_at_def bc_at_def)
    with tagged show False
      by (simp add: js_and_def to_int32_def)
  qed
  then show "((bc, accumulator, push_state s (word_at bc index) accumulator, index + 1),
              (bc, accumulator, s, index))
             \<in> measure (\<lambda>(bc, accumulator, s, index). nat (int (length bc) - index))"
    by simp
qed

definition goto :: "'r StateIterator \<Rightarrow> int \<Rightarrow> int \<Rightarrow> int \<times> 'r StateIterator" where
  "goto st instruction index =
     (let chained = goto_chain (bytecode st) (symbol_accumulator st)
                      (push_state (stack st) instruction (symbol_accumulator st)) index
      in (fst chained, st\<lparr> stack := snd chained \<rparr>))"

text \<open>
  The fork handler is the second argument of \<open>start\<close>: a function of the fork action's
  pointer and the engine to the actions to replay. A \<open>DebugIterator\<close> on which \<open>start\<close>
  was never called has none (\<open>None\<close>), and calling it throws.
\<close>

type_synonym 'r fork_handler = "(int \<Rightarrow> 'r StateIterator \<Rightarrow> ParseAction list) option"

definition fork ::
  "'r fork_handler \<Rightarrow> 'r StateIterator \<Rightarrow> int \<Rightarrow> int \<Rightarrow> error + (int \<times> 'r StateIterator)" where
  "fork fh st instruction index =
     (let st1 = st\<lparr> ACTION_BUFFER_EMPTY := False \<rparr>
      in case fh of
           None \<Rightarrow> Inl ForkHandlerUndefined
         | Some f \<Rightarrow>
             (let buffer = f (index - 1) st1
              in if length buffer > 0
                 then and_then (emit_all st1 buffer) (\<lambda>st2. Inr (1, st2))
                 else Inr (0, st1)))"

section \<open>The instruction loop and the driver loop\<close>

text \<open>
  \<open>exec_loop\<close> is the loop \<open>while (true)\<close> of \<open>instruction_executor\<close>. Nothing in the
  engine bounds the number of its iterations, so the loops of the model count them
  down from a fuel \<open>n\<close> and return \<open>Inl OutOfFuel\<close> at 0: a run that returns nothing
  else for any fuel does not terminate. Opcode 8 has no \<open>break\<close> and runs the code of
  opcode 9.
\<close>

fun exec_loop ::
  "'r env \<Rightarrow> 'r scanner_fn \<Rightarrow> 'r fork_handler \<Rightarrow> nat \<Rightarrow> 'r StateIterator \<Rightarrow> int \<Rightarrow> int \<Rightarrow> bool
     \<Rightarrow> error + (bool \<times> 'r StateIterator)" where
  "exec_loop env scan fh 0 st index0 recover_data fail_mode = Inl OutOfFuel"
| "exec_loop env scan fh (Suc n) st index0 recover_data fail_mode =
     (let instruction = word_at (bytecode st) index0;
          index = index0 + 1;
          opcode = js_and (js_shr instruction 28) 0xF
      in if opcode = 1 then
           and_then (consume env st instruction)
             (\<lambda>st'. exec_loop env scan fh n st' index recover_data fail_mode)
         else if opcode = 2 then
           exec_loop env scan fh n (snd (goto st instruction index))
             (fst (goto st instruction index)) recover_data fail_mode
         else if opcode = 3 then
           exec_loop env scan fh n (set_production st instruction) index recover_data fail_mode
         else if opcode = 4 then
           and_then (reduce st instruction index recover_data)
             (\<lambda>(index', st'). exec_loop env scan fh n st' index' recover_data fail_mode)
         else if opcode = 5 then
           and_then (set_token env st instruction index)
             (\<lambda>(index', st'). exec_loop env scan fh n st' index' recover_data fail_mode)
         else if opcode = 6 then
           and_then (fork fh st instruction index)
             (\<lambda>(index', st'). exec_loop env scan fh n st' index' recover_data fail_mode)
         else if opcode = 7 then
           and_then (scan_to env scan n st index instruction)
             (\<lambda>(index', st'). exec_loop env scan fh n st' index' recover_data fail_mode)
         else if opcode = 8 \<or> opcode = 9 then
           and_then (index_jump env scan st index instruction)
             (\<lambda>(index', st'). exec_loop env scan fh n st' index' recover_data fail_mode)
         else if opcode = 10 then
           and_then (hash_jump env scan n st index instruction)
             (\<lambda>(index', st'). exec_loop env scan fh n st' index' recover_data fail_mode)
         else if opcode = 11 then
           exec_loop env scan fh n (push_fail_state env st instruction) index
             recover_data fail_mode
         else if opcode = 12 then
           exec_loop env scan fh n st (repeat index instruction) recover_data fail_mode
         else if opcode = 13 then
           exec_loop env scan fh n st (try_lazy index instruction) recover_data fail_mode
         else if opcode = 14 then
           and_then (assert_consume env st index instruction)
             (\<lambda>(index', st'). exec_loop env scan fh n st' index' recover_data fail_mode)
         else if opcode = 15 then
           Inr (advanced_return instruction fail_mode, st)
         else Inr (pass, st))"

definition instruction_executor ::
  "'r env \<Rightarrow> 'r scanner_fn \<Rightarrow> 'r fork_handler \<Rightarrow> nat \<Rightarrow> 'r StateIterator \<Rightarrow> int \<Rightarrow> bool
     \<Rightarrow> error + (bool \<times> 'r StateIterator)" where
  "instruction_executor env scan fh n st state_pointer fail_mode =
     exec_loop env scan fh n st
       (js_and state_pointer (state_index_mask env))
       (meta_stack (stack st) (pointer (stack st) + 1))
       fail_mode"

text \<open>The action \<open>start\<close> emits when it finds the stack empty (\<open>stack.pointer < 1\<close>).\<close>

definition final_action :: "'r env \<Rightarrow> 'r StateIterator \<Rightarrow> bool \<Rightarrow> int \<Rightarrow> int \<Rightarrow> ParseAction" where
  "final_action env st fail_mode last_good_state root =
     (let token = tok0 st;
          advanced = tok1 st
      in if SCANNER st then TOKEN token
         else if fail_mode then
           ERROR last_good_state (tk_type advanced) (codepoint_offset advanced)
             (codepoint_length advanced) (production_id st)
         else if root \<ge> 0 \<and> production_id st = root then ACCEPT
         else if rd_offset_at_end env (reader st) (byte_offset (tok1 st)) then ACCEPT
         else
           ERROR last_good_state (tk_type advanced) (codepoint_offset advanced)
             (codepoint_length advanced) (production_id st))"

text \<open>
  The loop \<open>while (true)\<close> of \<open>start\<close>, with its two local variables. The hook \<open>peek\<close>
  is called for tracing only and is left out.
\<close>

fun start_loop ::
  "'r env \<Rightarrow> 'r scanner_fn \<Rightarrow> 'r fork_handler \<Rightarrow> int \<Rightarrow> nat \<Rightarrow> 'r StateIterator \<Rightarrow> bool \<Rightarrow> int
     \<Rightarrow> error + 'r StateIterator" where
  "start_loop env scan fh root 0 st fail_mode last_good_state = Inl OutOfFuel"
| "start_loop env scan fh root (Suc n) st fail_mode last_good_state =
     (if pointer (stack st) < 1 then
        emit st (final_action env st fail_mode last_good_state root)
      else
        (let state = fst (pop_state (stack st));
             st1 = st\<lparr> stack := snd (pop_state (stack st)) \<rparr>
         in if state > 0 then
              (let mask_gate = js_shl (normal_state_mask env) (if fail_mode then 1 else 0);
                   last_good_state' = (if fail_mode then last_good_state else state)
               in if js_and state mask_gate \<noteq> 0 then
                    and_then (instruction_executor env scan fh n st1 state fail_mode)
                      (\<lambda>(fail_mode', st2).
                         start_loop env scan fh root n st2 fail_mode' last_good_state')
                  else start_loop env scan fh root n st1 fail_mode last_good_state')
            else start_loop env scan fh root n st1 fail_mode last_good_state))"

definition start ::
  "'r env \<Rightarrow> 'r scanner_fn \<Rightarrow> nat \<Rightarrow> 'r StateIterator \<Rightarrow> handler \<Rightarrow> 'r fork_handler \<Rightarrow> int
     \<Rightarrow> error + 'r StateIterator" where
  "start env scan n st h fh root =
     (let st1 = st\<lparr> handler := h \<rparr>;
          st2 = (if SCANNER st1
                 then st1\<lparr> tok0 := (tok0 st1)\<lparr> line_number := rd_line_count env (reader st1),
                                                 line_offset := rd_line_offset env (reader st1) \<rparr> \<rparr>
                 else st1)
      in start_loop env scan fh root n st2 False (- 1))"

section \<open>The scanner: a nested engine\<close>

text \<open>
  The loop \<open>while (ACTIVE)\<close> of \<open>scanner\<close>. Each iteration runs the nested engine's
  \<open>start\<close> with the closure as handler and \<open>a => []\<close> as fork handler. The closure
  throws on every action but \<open>TOKEN\<close> (\<open>emit\<close> with \<open>ScannerHandler\<close>), and \<open>start\<close>
  returns right after it has emitted a \<open>TOKEN\<close>, so what the closure does with the token
  is done here, on the last action emitted.
\<close>

fun scanner_loop ::
  "'r env \<Rightarrow> 'r scanner_fn \<Rightarrow> nat \<Rightarrow> 'r StateIterator \<Rightarrow> KernelToken \<Rightarrow> int
     \<Rightarrow> error + KernelToken" where
  "scanner_loop env scan 0 sc current_token scanner_start_pointer = Inl OutOfFuel"
| "scanner_loop env scan (Suc n) sc current_token scanner_start_pointer =
     and_then (start env scan n sc ScannerHandler (Some (\<lambda>a it. [])) (- 1))
       (\<lambda>sc'. case rev (emitted sc') of
          TOKEN token # earlier \<Rightarrow>
            if tk_type token = skipped_scan_prod env then
              scanner_loop env scan n
                (sc'\<lparr> stack := stack_reset (stack sc') scanner_start_pointer,
                      tok0 := tok1 sc' \<rparr>)
                (current_token\<lparr>
                   codepoint_offset := codepoint_offset current_token + codepoint_length token,
                   byte_offset := byte_offset current_token + byte_length token,
                   line_offset := line_offset token,
                   line_number := line_number token \<rparr>)
                scanner_start_pointer
            else
              Inr (current_token\<lparr>
                     codepoint_length := codepoint_length token,
                     byte_length := byte_length token,
                     tk_type := tk_type token,
                     line_offset := line_offset token,
                     line_number := line_number token \<rparr>)
        | _ \<Rightarrow> Inl ScannerYieldedInvalidAction)"

text \<open>
  \<open>scanner\<close> itself. Besides the fuel \<open>n\<close> of the loops it has a bound \<open>d\<close> on the
  depth of scanners within scanners: the scanner of depth 0 is out of fuel, the nested
  engine of the scanner of depth \<open>d + 1\<close> scans with the scanner of depth \<open>d\<close>.
\<close>

primrec scanner :: "'r env \<Rightarrow> nat \<Rightarrow> nat \<Rightarrow> 'r scanner_fn" where
  "scanner env 0 n = (\<lambda>r bc current_token scanner_start_pointer. Inl OutOfFuel)"
| "scanner env (Suc d) n =
     (\<lambda>r bc current_token scanner_start_pointer.
        let clone = snd (rd_setCursorTo env r current_token);
            sc = (StateIterator_new clone bc scanner_start_pointer True)
                   \<lparr> tok1 := current_token, tok0 := current_token \<rparr>
        in scanner_loop env (scanner env d n) n sc current_token scanner_start_pointer)"

text \<open>A parse or scan session: \<open>start\<close> on an engine whose scanner is the one above.\<close>

definition run ::
  "'r env \<Rightarrow> nat \<Rightarrow> nat \<Rightarrow> 'r StateIterator \<Rightarrow> handler \<Rightarrow> 'r fork_handler \<Rightarrow> int
     \<Rightarrow> error + 'r StateIterator" where
  "run env d n st h fh root = start env (scanner env d n) n st h fh root"

section \<open>The instructions of a run\<close>

text \<open>
  One iteration of the loop of \<open>instruction_executor\<close>: \<open>exec_step\<close> executes the
  instruction at \<open>index0\<close> and returns the engine with the index to continue at, or
  with the value the loop returns. \<open>exec_loop\<close> is the iteration of \<open>exec_step\<close>
  (lemma \<open>exec_loop_step\<close> below).
\<close>

datatype 'r step = Continue int "'r StateIterator" | Return bool "'r StateIterator"

fun step_state :: "'r step \<Rightarrow> 'r StateIterator" where
  "step_state (Continue index st) = st"
| "step_state (Return r st) = st"

definition exec_step ::
  "'r env \<Rightarrow> 'r scanner_fn \<Rightarrow> 'r fork_handler \<Rightarrow> nat \<Rightarrow> 'r StateIterator \<Rightarrow> int \<Rightarrow> int \<Rightarrow> bool
     \<Rightarrow> error + 'r step" where
  "exec_step env scan fh n st index0 recover_data fail_mode =
     (let instruction = word_at (bytecode st) index0;
          index = index0 + 1;
          opcode = js_and (js_shr instruction 28) 0xF
      in if opcode = 1 then
           and_then (consume env st instruction) (\<lambda>st'. Inr (Continue index st'))
         else if opcode = 2 then
           Inr (Continue (fst (goto st instruction index)) (snd (goto st instruction index)))
         else if opcode = 3 then
           Inr (Continue index (set_production st instruction))
         else if opcode = 4 then
           and_then (reduce st instruction index recover_data)
             (\<lambda>(index', st'). Inr (Continue index' st'))
         else if opcode = 5 then
           and_then (set_token env st instruction index)
             (\<lambda>(index', st'). Inr (Continue index' st'))
         else if opcode = 6 then
           and_then (fork fh st instruction index)
             (\<lambda>(index', st'). Inr (Continue index' st'))
         else if opcode = 7 then
           and_then (scan_to env scan n st index instruction)
             (\<lambda>(index', st'). Inr (Continue index' st'))
         else if opcode = 8 \<or> opcode = 9 then
           and_then (index_jump env scan st index instruction)
             (\<lambda>(index', st'). Inr (Continue index' st'))
         else if opcode = 10 then
           and_then (hash_jump env scan n st index instruction)
             (\<lambda>(index', st'). Inr (Continue index' st'))
         else if opcode = 11 then
           Inr (Continue index (push_fail_state env st instruction))
         else if opcode = 12 then
           Inr (Continue (repeat index instruction) st)
         else if opcode = 13 then
           Inr (Continue (try_lazy index instruction) st)
         else if opcode = 14 then
           and_then (assert_consume env st index instruction)
             (\<lambda>(index', st'). Inr (Continue index' st'))
         else if opcode = 15 then
           Inr (Return (advanced_return instruction fail_mode) st)
         else Inr (Return pass st))"

text \<open>
  The instructions an engine executes, in order, each as the pair of the engine right
  before the instruction and the index of the instruction's word in the bytecode:
  \<open>exec_visits\<close> for one call of \<open>instruction_executor\<close>, \<open>start_loop_visits\<close> for
  the driver loop, \<open>run_visits\<close> for a session. They are the instructions of the
  engine itself, without those of the nested engines its scanner runs.
\<close>

fun exec_visits ::
  "'r env \<Rightarrow> 'r scanner_fn \<Rightarrow> 'r fork_handler \<Rightarrow> nat \<Rightarrow> 'r StateIterator \<Rightarrow> int \<Rightarrow> int \<Rightarrow> bool
     \<Rightarrow> ('r StateIterator \<times> int) list" where
  "exec_visits env scan fh 0 st index recover_data fail_mode = []"
| "exec_visits env scan fh (Suc n) st index recover_data fail_mode =
     (st, index) #
     (case exec_step env scan fh n st index recover_data fail_mode of
        Inr (Continue index' st') \<Rightarrow> exec_visits env scan fh n st' index' recover_data fail_mode
      | _ \<Rightarrow> [])"

fun start_loop_visits ::
  "'r env \<Rightarrow> 'r scanner_fn \<Rightarrow> 'r fork_handler \<Rightarrow> nat \<Rightarrow> 'r StateIterator \<Rightarrow> bool
     \<Rightarrow> ('r StateIterator \<times> int) list" where
  "start_loop_visits env scan fh 0 st fail_mode = []"
| "start_loop_visits env scan fh (Suc n) st fail_mode =
     (if pointer (stack st) < 1 then []
      else
        (let state = fst (pop_state (stack st));
             st1 = st\<lparr> stack := snd (pop_state (stack st)) \<rparr>
         in if state > 0
               \<and> js_and state (js_shl (normal_state_mask env) (if fail_mode then 1 else 0)) \<noteq> 0
            then
              exec_visits env scan fh n st1 (js_and state (state_index_mask env))
                (meta_stack (stack st1) (pointer (stack st1) + 1)) fail_mode
              @ (case instruction_executor env scan fh n st1 state fail_mode of
                   Inl e \<Rightarrow> []
                 | Inr (fail_mode', st2) \<Rightarrow> start_loop_visits env scan fh n st2 fail_mode')
            else start_loop_visits env scan fh n st1 fail_mode))"

definition run_visits ::
  "'r env \<Rightarrow> nat \<Rightarrow> nat \<Rightarrow> 'r StateIterator \<Rightarrow> handler \<Rightarrow> 'r fork_handler
     \<Rightarrow> ('r StateIterator \<times> int) list" where
  "run_visits env d n st h fh =
     (let st1 = st\<lparr> handler := h \<rparr>;
          st2 = (if SCANNER st1
                 then st1\<lparr> tok0 := (tok0 st1)\<lparr> line_number := rd_line_count env (reader st1),
                                                 line_offset := rd_line_offset env (reader st1) \<rparr> \<rparr>
                 else st1)
      in start_loop_visits env (scanner env d n) fh n st2 False)"

section \<open>The debug iterator\<close>

text \<open>
  \<open>DebugState\<close>, with its array \<open>tokens\<close> split like that of the engine. A
  \<open>DebugIterator\<close> has the fields of \<open>StateIterator\<close> (its role is never the scanner's)
  and overrides \<open>emit\<close> to append to the \<open>actions\<close> of the state under construction;
  the model collects them in \<open>emitted\<close>, emptied at the start of every step. An emitted
  \<open>SHIFT\<close> holds the object \<open>tokens[1]\<close> itself, which the step goes on changing, so in
  the returned state every \<open>SHIFT\<close> shows the lookahead token as the step left it. The
  iterator is stepped without \<open>start\<close>, so its fork handler is undefined.
\<close>

record 'r DebugState =
  dbg_state :: int
  dbg_ACTIVE :: bool
  dbg_stack :: KernelStack
  dbg_tok0 :: KernelToken
  dbg_tok1 :: KernelToken
  dbg_peeks :: "KernelToken list"
  dbg_symbol_accumulator :: int
  dbg_production_id :: int
  dbg_fail_mode :: bool
  dbg_last_good_state :: int
  dbg_byte_reader :: 'r
  dbg_actions :: "ParseAction list"

definition DebugIterator_new :: "'r \<Rightarrow> int list \<Rightarrow> int \<Rightarrow> 'r StateIterator" where
  "DebugIterator_new base_byte_reader bytecode_buffer entry_pointer =
     StateIterator_new base_byte_reader bytecode_buffer entry_pointer False"

definition active_debug_state_new :: "'r env \<Rightarrow> 'r StateIterator \<Rightarrow> int \<Rightarrow> 'r DebugState" where
  "active_debug_state_new env it entry_pointer =
     \<lparr> dbg_state = js_and entry_pointer (state_index_mask env),
       dbg_ACTIVE = True,
       dbg_stack = stack it,
       dbg_tok0 = tok0 it, dbg_tok1 = tok1 it, dbg_peeks = peeks it,
       dbg_symbol_accumulator = symbol_accumulator it,
       dbg_production_id = - 1,
       dbg_fail_mode = False,
       dbg_last_good_state = - 1,
       dbg_byte_reader = reader it,
       dbg_actions = [] \<rparr>"

fun shown_action :: "'r StateIterator \<Rightarrow> ParseAction \<Rightarrow> ParseAction" where
  "shown_action it (SHIFT token) = SHIFT (tok1 it)"
| "shown_action it (TOKEN token) = TOKEN (tok0 it)"
| "shown_action it action = action"

text \<open>
  The state \<open>next_state\<close> returns: \<open>state\<close>, \<open>ACTIVE\<close>, \<open>fail_mode\<close> and
  \<open>last_good_state\<close> as the step set them, \<open>symbol_accumulator\<close> always \<open>-1\<close>, the rest
  read from the iterator at the end of the step.
\<close>

definition debug_snapshot ::
  "'r StateIterator \<Rightarrow> int \<Rightarrow> bool \<Rightarrow> bool \<Rightarrow> int \<Rightarrow> 'r DebugState" where
  "debug_snapshot it state_field active fail_mode_field last_good_state_field =
     \<lparr> dbg_state = state_field,
       dbg_ACTIVE = active,
       dbg_stack = stack it,
       dbg_tok0 = tok0 it, dbg_tok1 = tok1 it, dbg_peeks = peeks it,
       dbg_symbol_accumulator = - 1,
       dbg_production_id = production_id it,
       dbg_fail_mode = fail_mode_field,
       dbg_last_good_state = last_good_state_field,
       dbg_byte_reader = reader it,
       dbg_actions = map (shown_action it) (emitted it) \<rparr>"

text \<open>
  \<open>next_state\<close> returns the new state and leaves the iterator changed: the second
  component is the iterator after the call, on which the next call is made.
\<close>

definition next_state ::
  "'r env \<Rightarrow> 'r scanner_fn \<Rightarrow> nat \<Rightarrow> 'r StateIterator \<Rightarrow> 'r DebugState \<Rightarrow> int
     \<Rightarrow> error + ('r DebugState \<times> 'r StateIterator)" where
  "next_state env scan n it prev_state goal_production =
     (let fail_mode = dbg_fail_mode prev_state;
          last_good_state = dbg_last_good_state prev_state;
          it1 = it\<lparr> reader := dbg_byte_reader prev_state,
                    production_id := dbg_production_id prev_state,
                    tok0 := dbg_tok0 prev_state,
                    tok1 := dbg_tok1 prev_state,
                    peeks := dbg_peeks prev_state,
                    stack := dbg_stack prev_state,
                    handler := CallerHandler,
                    emitted := [] \<rparr>
      in if pointer (stack it1) < 1 then
           and_then (emit it1 (final_action env it1 fail_mode last_good_state goal_production))
             (\<lambda>it2. Inr (debug_snapshot it2 0 False False (- 1), it2))
         else
           (let state = fst (pop_state (stack it1));
                it2 = it1\<lparr> stack := snd (pop_state (stack it1)) \<rparr>;
                state_field = js_and state (state_index_mask env)
            in if state > 0 then
                 (let mask_gate = js_shl (normal_state_mask env) (if fail_mode then 1 else 0);
                      last_good_state_field = (if fail_mode then - 1 else state)
                  in if js_and state mask_gate \<noteq> 0 then
                       and_then (instruction_executor env scan None n it2 state fail_mode)
                         (\<lambda>(fail_mode', it3).
                            Inr (debug_snapshot it3 state_field True fail_mode'
                                   last_good_state_field, it3))
                     else
                       Inr (debug_snapshot it2 state_field True False last_good_state_field,
                            it2))
               else Inr (debug_snapshot it2 state_field True False (- 1), it2)))"

section \<open>Statements of the specification and example inputs\<close>

text \<open>
  The finalization of the driver loop in the specification's words: in scanner role a
  \<open>Token\<close>; otherwise an \<open>Error\<close> in fail mode; otherwise \<open>Accept\<close> if a goal production
  was given (it is not negative) and is the current production, or the input is
  exhausted at the lookahead token's offset; otherwise an \<open>Error\<close>.
\<close>

definition spec_final_action :: "'r env \<Rightarrow> 'r StateIterator \<Rightarrow> bool \<Rightarrow> int \<Rightarrow> int \<Rightarrow> ParseAction" where
  "spec_final_action env st fail_mode last_good_state goal =
     (if SCANNER st then TOKEN (tok0 st)
      else if fail_mode then
        ERROR last_good_state (tk_type (tok1 st)) (codepoint_offset (tok1 st))
          (codepoint_length (tok1 st)) (production_id st)
      else if (goal \<ge> 0 \<and> production_id st = goal)
              \<or> rd_offset_at_end env (reader st) (byte_offset (tok1 st)) then ACCEPT
      else
        ERROR last_good_state (tk_type (tok1 st)) (codepoint_offset (tok1 st))
          (codepoint_length (tok1 st)) (production_id st))"

text \<open>
  An environment to run the engine on concrete inputs. The reader is a byte list with a
  cursor; every byte is one codepoint, of class 1 when it is a space and 2 otherwise.
  The masks put the normal-mode flag at bit 26 (so the fail-mode flag, one bit to the
  left, at bit 27), the goto flag at bit 25, and the instruction index in the low 24
  bits.
\<close>

definition ex_env :: "(int list \<times> int) env" where
  "ex_env = \<lparr> normal_state_mask = 0x4000000, goto_state_mask = 0x2000000,
     instruction_pointer_mask = 0xFFFFFF, state_index_mask = 0xFFFFFF,
     skipped_scan_prod = 9009,
     rd_next = (\<lambda>r n. (fst r, snd r + n)),
     rd_END = (\<lambda>r. snd r \<ge> int (length (fst r))),
     rd_offset_at_end = (\<lambda>r off. off \<ge> int (length (fst r))),
     rd_setCursorTo = (\<lambda>r t. (True, (fst r, byte_offset t))),
     rd_byte = (\<lambda>r. word_at (fst r) (snd r)),
     rd_codepoint = (\<lambda>r. word_at (fst r) (snd r)),
     rd_class = (\<lambda>r. if word_at (fst r) (snd r) = 32 then 1 else 2),
     rd_codepoint_byte_length = (\<lambda>r. 1),
     rd_codepoint_length = (\<lambda>r. 1),
     rd_line_count = (\<lambda>r. 0),
     rd_line_offset = (\<lambda>r. 0) \<rparr>"

definition ex_parser :: "int list \<Rightarrow> int list \<Rightarrow> int \<Rightarrow> (int list \<times> int) StateIterator" where
  "ex_parser input bc entry_pointer = StateIterator_new (input, 0) bc entry_pointer False"

text \<open>
  An image with a scanner block at word 3 (\<open>SET_TOKEN\<close> of type 5 on the current token,
  then \<open>PASS\<close>) and, at word 5, a \<open>SCAN_TO\<close> with that scanner and the one target
  type 7.
\<close>

definition ex_scan_to_bytecode :: "int list" where
  "ex_scan_to_bytecode = [0, 0, 0, 0x58000005, 0, 0x70000001, 0x4000003, 7, 0]"

text \<open>
  What an executed instruction does to the symbol accumulator according to the
  specification, read from the instruction: \<open>consumes_at\<close> is the number of calls of
  \<open>consume\<close> it makes (one for a \<open>CONSUME\<close>, for a \<open>SET_TOKEN\<close> with the consume
  flag \<open>0x01000000\<close> and for an \<open>ASSERT_CONSUME\<close> whose literal matches the input),
  \<open>reduce_excess\<close> is \<open>length - 1\<close> for the length field of a \<open>REDUCE\<close>.
  \<open>dynamic_reduce_at\<close> holds of a \<open>REDUCE\<close> in the dynamic encoding, \<open>goto_at\<close> of
  a \<open>GOTO\<close>, and \<open>goto_snapshot\<close> is the accumulator snapshot of the entry that a
  \<open>GOTO\<close> leaves on top of the stack.
\<close>

definition assert_matches :: "'r env \<Rightarrow> 'r StateIterator \<Rightarrow> int \<Rightarrow> bool" where
  "assert_matches env st instruction =
     (let mode = js_and instruction 0x0F000000;
          val = js_and instruction 0x00FFFFFF
      in if mode = 0x00000000 then val = rd_class env (reader st)
         else if mode = 0x01000000 then val = rd_codepoint env (reader st)
         else if mode = 0x02000000 then val = rd_byte env (reader st)
         else True)"

definition consumes_at :: "'r env \<Rightarrow> 'r StateIterator \<times> int \<Rightarrow> int" where
  "consumes_at env v =
     (let instruction = word_at (bytecode (fst v)) (snd v);
          opcode = js_and (js_shr instruction 28) 0xF
      in if opcode = 1 then 1
         else if opcode = 5 \<and> js_and instruction 0x01000000 \<noteq> 0 then 1
         else if opcode = 14 \<and> assert_matches env (fst v) instruction then 1
         else 0)"

definition reduce_excess :: "'r StateIterator \<times> int \<Rightarrow> int" where
  "reduce_excess v =
     (let instruction = word_at (bytecode (fst v)) (snd v)
      in if js_and (js_shr instruction 28) 0xF = 4
         then js_and (js_shr instruction 16) 0xFFF - 1 else 0)"

definition dynamic_reduce_at :: "'r StateIterator \<times> int \<Rightarrow> bool" where
  "dynamic_reduce_at v =
     (let instruction = word_at (bytecode (fst v)) (snd v)
      in js_and (js_shr instruction 28) 0xF = 4
         \<and> js_and (js_and instruction 0xFFFF) 0xFFFF = 0xFFFF)"

definition goto_at :: "'r StateIterator \<times> int \<Rightarrow> bool" where
  "goto_at v = (js_and (js_shr (word_at (bytecode (fst v)) (snd v)) 28) 0xF = 2)"

definition goto_snapshot :: "'r StateIterator \<times> int \<Rightarrow> int" where
  "goto_snapshot v =
     (let pushed = stack (snd (goto (fst v) (word_at (bytecode (fst v)) (snd v)) (snd v + 1)))
      in meta_stack pushed (pointer pushed))"

text \<open>
  \<open>state_at\<close> is the engine at the start of a part of a run: the engine right before
  the first instruction of the part, or the final engine when the part is empty.
  \<open>since_last_goto\<close> is the part of a run behind its last \<open>GOTO\<close>.
\<close>

definition state_at ::
  "('r StateIterator \<times> int) list \<Rightarrow> 'r StateIterator \<Rightarrow> 'r StateIterator" where
  "state_at visits final = (case visits of [] \<Rightarrow> final | v # rest \<Rightarrow> fst v)"

definition since_last_goto ::
  "('r StateIterator \<times> int) list \<Rightarrow> ('r StateIterator \<times> int) list" where
  "since_last_goto visits = rev (takeWhile (\<lambda>v. \<not> goto_at v) (rev visits))"

text \<open>
  Two images. The block at word 3 of the first shifts the lookahead token at length 0,
  executes a \<open>GOTO\<close> to the block at word 7 and shifts again; the block at word 7
  reduces two symbols with rule 0. The block at word 3 of the second shifts twice and
  reduces with the dynamic encoding (rule field \<open>0xFFFF\<close>, function 1).
\<close>

definition ex_goto_bytecode :: "int list" where
  "ex_goto_bytecode = [0, 0, 0, 0x10000001, 0x24000007, 0x10000001, 0, 0x40020000, 0]"

definition ex_dynamic_bytecode :: "int list" where
  "ex_dynamic_bytecode = [0, 0, 0, 0x10000001, 0x10000001, 0x4001FFFF, 0]"

definition ex_goto_run :: "error + (int list \<times> int) StateIterator" where
  "ex_goto_run = run ex_env 0 8 (ex_parser [] ex_goto_bytecode 0x4000003) CallerHandler None (- 1)"

definition ex_goto_visits :: "((int list \<times> int) StateIterator \<times> int) list" where
  "ex_goto_visits =
     run_visits ex_env 0 8 (ex_parser [] ex_goto_bytecode 0x4000003) CallerHandler None"

definition ex_dynamic_run :: "error + (int list \<times> int) StateIterator" where
  "ex_dynamic_run =
     run ex_env 0 8 (ex_parser [] ex_dynamic_bytecode 0x4000003) CallerHandler None (- 1)"

text \<open>
  The specification's count over a sequence of emitted actions: one for every \<open>Shift\<close>,
  minus \<open>length - 1\<close> for every \<open>Reduce\<close>.
\<close>

fun action_symbols :: "ParseAction \<Rightarrow> int" where
  "action_symbols (SHIFT token) = 1"
| "action_symbols (REDUCE body len production) = - (len - 1)"
| "action_symbols other = 0"

definition spec_accumulator :: "ParseAction list \<Rightarrow> int" where
  "spec_accumulator actions = sum_list (map action_symbols actions)"

text \<open>
  An image whose block at word 3 shifts the lookahead token at length 0, reduces with
  the dynamic encoding (rule field \<open>0xFFFF\<close>, function 1) and passes.
\<close>

definition ex_debug_bytecode :: "int list" where
  "ex_debug_bytecode = [0, 0, 0, 0x10000001, 0x4001FFFF, 0]"

text \<open>
  An image with a scanner at word 3: an \<open>INDEX_JUMP\<close> on the byte under the reader,
  whose one row (byte 32, a space) consumes the byte and sets the token type to the
  skipped type 9009, and whose default block consumes the byte and sets the type 88.
\<close>

definition ex_scanner_bytecode :: "int list" where
  "ex_scanner_bytecode =
     [0, 0, 0, 0x91000020, 0, 0x00010003,
      0x10000000, 0x58000058, 0,
      0x10000000, 0x58002331, 0]"

text \<open>
  What the scanner's bytecode makes of an input that is a skippable region followed by
  a token: \<open>nested_runs env scan pointer n sc skipped token_x\<close> says that the nested
  engine \<open>sc\<close>, run and restarted from its entry pointer as \<open>scanner\<close> does, yields the
  tokens \<open>skipped\<close> of the skipped type, one per run, and then the token \<open>token_x\<close> of
  another type.
\<close>

inductive nested_runs ::
  "'r env \<Rightarrow> 'r scanner_fn \<Rightarrow> int \<Rightarrow> nat \<Rightarrow> 'r StateIterator \<Rightarrow> KernelToken list \<Rightarrow> KernelToken
     \<Rightarrow> bool"
  for env :: "'r env" and scan :: "'r scanner_fn" and scanner_start_pointer :: int where
  last_run:
    "start env scan n sc ScannerHandler (Some (\<lambda>a it. [])) (- 1) = Inr sc_after \<Longrightarrow>
     rev (emitted sc_after) = TOKEN token # earlier \<Longrightarrow>
     tk_type token \<noteq> skipped_scan_prod env \<Longrightarrow>
     nested_runs env scan scanner_start_pointer (Suc n) sc [] token"
| skipped_run:
    "start env scan n sc ScannerHandler (Some (\<lambda>a it. [])) (- 1) = Inr sc_after \<Longrightarrow>
     rev (emitted sc_after) = TOKEN token # earlier \<Longrightarrow>
     tk_type token = skipped_scan_prod env \<Longrightarrow>
     nested_runs env scan scanner_start_pointer n
       (sc_after\<lparr> stack := stack_reset (stack sc_after) scanner_start_pointer, tok0 := tok1 sc_after \<rparr>)
       skipped token_x \<Longrightarrow>
     nested_runs env scan scanner_start_pointer (Suc n) sc (token # skipped) token_x"

definition ex_scanner_start :: "(int list \<times> int) StateIterator" where
  "ex_scanner_start =
     (StateIterator_new (snd (rd_setCursorTo ex_env ([32, 32, 88], 0) KernelToken_new))
        ex_scanner_bytecode 0x4000003 True)\<lparr> tok1 := KernelToken_new, tok0 := KernelToken_new \<rparr>"

definition ex_nested_run ::
  "nat \<Rightarrow> (int list \<times> int) StateIterator \<Rightarrow> (int list \<times> int) StateIterator" where
  "ex_nested_run n sc =
     projr (start ex_env (scanner ex_env 0 8) n sc ScannerHandler (Some (\<lambda>a it. [])) (- 1))"

definition ex_restart :: "(int list \<times> int) StateIterator \<Rightarrow> (int list \<times> int) StateIterator" where
  "ex_restart sc = sc\<lparr> stack := stack_reset (stack sc) 0x4000003, tok0 := tok1 sc \<rparr>"

text \<open>
  The fields of a cell of a \<open>HASH_JUMP\<close> table, as \<open>hash_jump\<close> decodes them, and the
  cells of the table along the probe sequence that starts at a slot: every cell up to
  the one whose step is 0 (\<open>None\<close> if \<open>n\<close> steps do not reach it).
\<close>

definition cell_value :: "int \<Rightarrow> int" where
  "cell_value cell = js_and cell 0x7FF"

definition cell_next :: "int \<Rightarrow> int" where
  "cell_next cell = js_and (js_ushr cell 22) 0x3FF - 512"

definition cell_start :: "int \<Rightarrow> int" where
  "cell_start cell = js_and (js_shr cell 11) 0x7FF"

fun hash_chain :: "int list \<Rightarrow> int \<Rightarrow> nat \<Rightarrow> int \<Rightarrow> int list option" where
  "hash_chain bc hash_table_start 0 slot = None"
| "hash_chain bc hash_table_start (Suc n) slot =
     (let cell = word_at bc (hash_table_start + slot)
      in if cell_next cell = 0 then Some [cell]
         else map_option (Cons cell) (hash_chain bc hash_table_start n (slot + cell_next cell)))"

text \<open>
  The outcome of a dispatch in the specification's words: the block of the matching
  entry when the discriminant is in the table, the default block otherwise. In an
  \<open>INDEX_JUMP\<close> table the block of the value \<open>v\<close> is the row \<open>v - basis\<close>, behind the
  default block at the start of the table; in a \<open>HASH_JUMP\<close> table it is at the offset
  stored in the cell of \<open>v\<close>, in the instruction field whose end is the default block.
\<close>

datatype branch = Entry int | Default

definition spec_dispatch :: "(int \<Rightarrow> bool) \<Rightarrow> int \<Rightarrow> branch" where
  "spec_dispatch in_table v = (if in_table v then Entry v else Default)"

fun index_block :: "int \<Rightarrow> int \<Rightarrow> int \<Rightarrow> branch \<Rightarrow> int" where
  "index_block table_start basis row_size (Entry v) =
     table_start + (v - basis) * row_size + row_size"
| "index_block table_start basis row_size Default = table_start"

fun hash_block :: "int \<Rightarrow> int \<Rightarrow> int list \<Rightarrow> branch \<Rightarrow> int" where
  "hash_block instruction_field_start instruction_field_size cells (Entry v) =
     (case find (\<lambda>cell. cell_value cell = v) cells of
        Some cell \<Rightarrow> instruction_field_start + cell_start cell
      | None \<Rightarrow> instruction_field_start + instruction_field_size)"
| "hash_block instruction_field_start instruction_field_size cells Default =
     instruction_field_start + instruction_field_size"

text \<open>
  An image with an \<open>INDEX_JUMP\<close> at word 3 and a \<open>HASH_JUMP\<close> at word 9, both on the
  production id and both with the values 5 and 6 in their tables.
\<close>

definition ex_jump_bytecode :: "int list" where
  "ex_jump_bytecode =
     [0, 0, 0,
      0x90000005, 0, 0x00020001, 0, 0, 0,
      0xA0000002, 0, 0x00010002, 0x80000006, 0x80000805, 0, 0, 0]"

text \<open>
  The terminal actions, and the invariant of a session used below: since the actions
  \<open>before\<close>, the engine with handler \<open>h\<close> and role \<open>role\<close> has emitted no terminal action.
\<close>

fun is_terminal :: "ParseAction \<Rightarrow> bool" where
  "is_terminal ACCEPT = True"
| "is_terminal (ERROR last_state ty offset len production) = True"
| "is_terminal (TOKEN token) = True"
| "is_terminal other = False"

definition emits_only :: "ParseAction list \<Rightarrow> handler \<Rightarrow> bool \<Rightarrow> 'r StateIterator \<Rightarrow> bool" where
  "emits_only before h role st \<longleftrightarrow>
     handler st = h \<and> SCANNER st = role
     \<and> (\<exists>new. emitted st = before @ new \<and> (\<forall>a \<in> set new. \<not> is_terminal a))"

text \<open>
  Two images. The block at word 3 of the first shifts the lookahead token at length 0
  and repeats (the state \<open>shift nothing then repeat state\<close> of the intermediate
  language). The block at word 3 of the second asserts and consumes the bytes \<open>x\<close> and
  \<open>y\<close>, reduces two symbols with rule 0 and passes.
\<close>

definition ex_loop_bytecode :: "int list" where
  "ex_loop_bytecode = [0, 0, 0, 0x10000001, 0xC0000002]"

definition ex_xy_bytecode :: "int list" where
  "ex_xy_bytecode = [0, 0, 0, 0xE2000078, 0xE2000079, 0x40020000, 0]"

text \<open>
  The byte offsets of the shifted tokens, in the order of the actions, and the
  invariant that keeps them in input order: the lengths of the tokens are not negative,
  the current token does not start behind the lookahead token, and every token shifted
  so far starts at or before the lookahead token. \<open>scan_ok\<close> is what the invariant
  needs of a scanner, \<open>reader_ok\<close> what it needs of the reader.
\<close>

fun shift_offsets :: "ParseAction list \<Rightarrow> int list" where
  "shift_offsets [] = []"
| "shift_offsets (SHIFT token # actions) = byte_offset token # shift_offsets actions"
| "shift_offsets (other # actions) = shift_offsets actions"

definition in_order :: "'r StateIterator \<Rightarrow> bool" where
  "in_order st \<longleftrightarrow>
     0 \<le> byte_length (tok1 st) \<and> 0 \<le> byte_length (tok0 st)
     \<and> byte_offset (tok0 st) \<le> byte_offset (tok1 st)
     \<and> (\<forall>t \<in> set (peeks st). 0 \<le> byte_length t)
     \<and> sorted (shift_offsets (emitted st))
     \<and> (\<forall>off \<in> set (shift_offsets (emitted st)). off \<le> byte_offset (tok1 st))"

definition scan_ok :: "'r scanner_fn \<Rightarrow> bool" where
  "scan_ok scan \<longleftrightarrow>
     (\<forall>r bc t p t'. 0 \<le> byte_length t \<longrightarrow> scan r bc t p = Inr t' \<longrightarrow>
        byte_offset t \<le> byte_offset t' \<and> 0 \<le> byte_length t')"

definition reader_ok :: "'r env \<Rightarrow> bool" where
  "reader_ok env \<longleftrightarrow> (\<forall>r. 0 \<le> rd_codepoint_byte_length env r)"

text \<open>
  The specification's rule for \<open>Skip\<close>, read on a sequence of actions; \<open>e\<close> is the
  end (\<open>byte_offset + byte_length\<close>) of the token shifted last, 0 before the first
  \<open>Shift\<close>, and \<open>last_end\<close> is that end behind a sequence of actions.
  \<open>skips_at_gaps\<close> holds when a \<open>Skip\<close> stands only immediately before a \<open>Shift\<close>,
  and a \<open>Shift\<close> has a \<open>Skip\<close> before it exactly when its token does not start at
  \<open>e\<close>. \<open>skips_only_at_gaps\<close> is the half of it that says where a \<open>Skip\<close> may
  stand: only immediately before a \<open>Shift\<close> whose token starts beyond \<open>e\<close>.
\<close>

fun shift_or_skip :: "ParseAction \<Rightarrow> bool" where
  "shift_or_skip (SHIFT token) = True"
| "shift_or_skip (SKIP offset len line ty) = True"
| "shift_or_skip other = False"

fun last_end :: "int \<Rightarrow> ParseAction list \<Rightarrow> int" where
  "last_end e [] = e"
| "last_end e (SHIFT token # actions) = last_end (byte_offset token + byte_length token) actions"
| "last_end e (other # actions) = last_end e actions"

fun skips_at_gaps :: "int \<Rightarrow> ParseAction list \<Rightarrow> bool" where
  "skips_at_gaps e [] = True"
| "skips_at_gaps e (SKIP offset len line ty # SHIFT token # actions) =
     (byte_offset token \<noteq> e \<and> skips_at_gaps (byte_offset token + byte_length token) actions)"
| "skips_at_gaps e (SKIP offset len line ty # actions) = False"
| "skips_at_gaps e (SHIFT token # actions) =
     (byte_offset token = e \<and> skips_at_gaps (byte_offset token + byte_length token) actions)"
| "skips_at_gaps e (other # actions) = skips_at_gaps e actions"

fun skips_only_at_gaps :: "int \<Rightarrow> ParseAction list \<Rightarrow> bool" where
  "skips_only_at_gaps e [] = True"
| "skips_only_at_gaps e (SKIP offset len line ty # SHIFT token # actions) =
     (e < byte_offset token
      \<and> skips_only_at_gaps (byte_offset token + byte_length token) actions)"
| "skips_only_at_gaps e (SKIP offset len line ty # actions) = False"
| "skips_only_at_gaps e (SHIFT token # actions) =
     skips_only_at_gaps (byte_offset token + byte_length token) actions"
| "skips_only_at_gaps e (other # actions) = skips_only_at_gaps e actions"

text \<open>
  \<open>closes_token\<close> holds of an executed instruction that is a \<open>SET_TOKEN\<close> with the
  flag \<open>0x08000000\<close>, which sets the type of \<open>tokens[0]\<close> and stretches its length up
  to the lookahead token. The two invariants of a parse session relate the tokens of the
  engine to the actions emitted so far: \<open>tokens[0]\<close> starts at the end of the token
  shifted last; in \<open>gaps_exact\<close> it is empty, in \<open>gaps_sound\<close> it ends at or before
  the start of the lookahead token.
\<close>

definition closes_token :: "'r StateIterator \<times> int \<Rightarrow> bool" where
  "closes_token v =
     (let instruction = word_at (bytecode (fst v)) (snd v)
      in js_and (js_shr instruction 28) 0xF = 5 \<and> js_and instruction 0x08000000 \<noteq> 0)"

definition gaps_exact :: "'r StateIterator \<Rightarrow> bool" where
  "gaps_exact st \<longleftrightarrow>
     \<not> SCANNER st \<and> byte_length (tok0 st) = 0
     \<and> byte_offset (tok0 st) = last_end 0 (emitted st)
     \<and> skips_at_gaps 0 (emitted st)"

definition gaps_sound :: "'r StateIterator \<Rightarrow> bool" where
  "gaps_sound st \<longleftrightarrow>
     \<not> SCANNER st
     \<and> byte_offset (tok0 st) = last_end 0 (emitted st)
     \<and> byte_offset (tok0 st) + byte_length (tok0 st) \<le> byte_offset (tok1 st)
     \<and> skips_only_at_gaps 0 (emitted st)"

text \<open>
  Two images with the scanner for spaces and a parser block at word 12, which asserts and
  consumes the byte \<open>x\<close>, resolves the next token with that scanner (an \<open>INDEX_JUMP\<close>
  on the token type with an empty table), shifts it and passes. In the second image a
  \<open>SET_TOKEN\<close> with the flag \<open>0x08000000\<close> stands before the last \<open>CONSUME\<close>.
\<close>

definition ex_gap_bytecode :: "int list" where
  "ex_gap_bytecode =
     ex_scanner_bytecode @ [0xE2000078, 0x90400000, 0x4000003, 0, 0x10000000, 0]"

definition ex_closed_gap_bytecode :: "int list" where
  "ex_closed_gap_bytecode =
     ex_scanner_bytecode @ [0xE2000078, 0x90400000, 0x4000003, 0, 0x58000007, 0x10000000, 0]"

section \<open>Properties\<close>

subsection \<open>Finalization of the driver loop\<close>

lemma final_action_spec:
  "final_action env st fail_mode last_good_state root
     = spec_final_action env st fail_mode last_good_state root"
  by (simp add: final_action_def spec_final_action_def Let_def)

text \<open>
  Claim C2. Whenever the driver loop of \<open>start\<close> finds the execution stack empty
  (\<open>stack.pointer < 1\<close>), at any iteration and with any fuel left, it emits exactly one
  action, the one the specification describes, and returns: \<open>Token\<close> in scanner role;
  otherwise \<open>Error\<close> if \<open>fail_mode\<close>; otherwise \<open>Accept\<close> if a goal production id was given
  and equals \<open>production_id\<close>, or the reader is at its end at the lookahead token's
  offset; otherwise \<open>Error\<close>. The handler is the caller's, or the scanner's closure on
  an engine in scanner role.
\<close>

theorem start_finalizes_on_empty_stack:
  assumes "pointer (stack st) < 1" and "handler st = CallerHandler \<or> SCANNER st"
  shows "start_loop env scan fh root (Suc n) st fail_mode last_good_state
           = Inr (st\<lparr> emitted := emitted st
                    @ [spec_final_action env st fail_mode last_good_state root] \<rparr>)"
  using assms
  by (cases "handler st")
     (auto simp add: final_action_spec[symmetric] emit_def final_action_def Let_def)

theorem start_finalizes_on_empty_stack_witness:
  "pointer (stack ((ex_parser [120] [0] 0)\<lparr> stack := KernelStack_new, production_id := 7 \<rparr>)) < 1
   \<and> start_loop ex_env (scanner ex_env 0 0) None 7 (Suc 0)
        ((ex_parser [120] [0] 0)\<lparr> stack := KernelStack_new, production_id := 7 \<rparr>) False (- 1)
      = Inr ((ex_parser [120] [0] 0)
           \<lparr> stack := KernelStack_new, production_id := 7, emitted := [ACCEPT] \<rparr>)"
  using start_finalizes_on_empty_stack
    [of "(ex_parser [120] [0] 0)\<lparr> stack := KernelStack_new, production_id := 7 \<rparr>"
        ex_env "scanner ex_env 0 0" None 7 0 False "- 1"]
  by (simp add: ex_parser_def StateIterator_new_def KernelStack_new_def spec_final_action_def)

subsection \<open>ASSERT_CONSUME\<close>

lemma consume0_parser:
  assumes "\<not> SCANNER st" and "handler st = CallerHandler"
  shows "consume env st 0 =
     Inr (st\<lparr> ACTION_BUFFER_EMPTY := False,
              symbol_accumulator := symbol_accumulator st + 1,
              emitted := emitted st
                @ (if byte_offset (tok0 st) + byte_length (tok0 st) \<noteq> byte_offset (tok1 st)
                   then [SKIP (codepoint_offset (tok0 st))
                          (codepoint_offset (tok1 st)
                             - (codepoint_length (tok0 st) + codepoint_offset (tok0 st)))
                          (line_number (tok0 st)) 0]
                   else [])
                @ [SHIFT (tok1 st)],
              reader := rd_next env (reader st) (byte_length (tok1 st)),
              tok1 := advance_token (tok1 st),
              tok0 := advance_token (tok1 st) \<rparr>)"
  using assms
  by (simp add: consume_def emitShift_def emit_def and_then_def Let_def js_and_def to_int32_def)

lemma consume0_scanner:
  assumes "SCANNER st"
  shows "consume env st 0 =
     Inr (st\<lparr> reader := rd_next env (reader st) (byte_length (tok1 st)),
              tok1 := advance_token (tok1 st) \<rparr>)"
  using assms
  by (simp add: consume_def Let_def js_and_def to_int32_def)

text \<open>
  Claim C7, as the specification states it, fails twice. With the byte \<open>x\<close> (120) as
  input and a byte-mode \<open>ASSERT_CONSUME\<close> fetched from word 9 (so \<open>index\<close> is 10): for
  the literal \<open>y\<close> (121) the mismatch continues at word 2, not at word \<open>10 + 2\<close>; for
  the literal \<open>x\<close> the match shifts a token of byte length 1 and moves the reader by one
  byte, which is not a zero-length consume.
\<close>

theorem assert_consume_counterexample:
  "(case assert_consume ex_env (ex_parser [120] [] 0) 10 0xE2000079 of
      Inl e \<Rightarrow> False
    | Inr (index', st') \<Rightarrow> index' = 2 \<and> index' \<noteq> 10 + 2)
   \<and> (case assert_consume ex_env (ex_parser [120] [] 0) 10 0xE2000078 of
      Inl e \<Rightarrow> False
    | Inr (index', st') \<Rightarrow>
        index' = 10 \<and> reader st' = ([120], 1)
        \<and> emitted st' = [SHIFT (KernelToken_new\<lparr> byte_length := 1, codepoint_length := 1 \<rparr>)])"
  by code_simp

text \<open>
  Claim C7, amended. \<open>ASSERT_CONSUME\<close> in one of its three modes sets the lookahead
  token's lengths (the codepoint's lengths, or 1 and 1 in byte mode) and compares the
  reader's class, codepoint or byte with the literal. On a mismatch execution continues
  at the absolute word 2, with the reader where it was and nothing emitted. On a match it
  calls \<open>consume(0)\<close>, which consumes the token at the length just set: the reader moves
  by that many bytes and, in parser role, the token is shifted (after a \<open>Skip\<close> if it
  does not start where the previous token ends) and counted in \<open>symbol_accumulator\<close>;
  execution continues with the next instruction.
\<close>

theorem assert_consume_amended:
  assumes "js_and instruction 0x0F000000 \<in> {0, 0x01000000, 0x02000000}"
      and "SCANNER st \<or> handler st = CallerHandler"
  shows "assert_consume env st index instruction =
     (let mode = js_and instruction 0x0F000000;
          val = js_and instruction 0x00FFFFFF;
          observed = (if mode = 0 then rd_class env (reader st)
                      else if mode = 0x01000000 then rd_codepoint env (reader st)
                      else rd_byte env (reader st));
          token = (tok1 st)\<lparr>
                    byte_length := (if mode = 0x02000000 then 1
                                    else rd_codepoint_byte_length env (reader st)),
                    codepoint_length := (if mode = 0x02000000 then 1
                                         else rd_codepoint_length env (reader st)) \<rparr>
      in if val \<noteq> observed then Inr (2, st\<lparr> tok1 := token \<rparr>)
         else if SCANNER st then
           Inr (index, st\<lparr> reader := rd_next env (reader st) (byte_length token),
                           tok1 := advance_token token \<rparr>)
         else
           Inr (index,
                st\<lparr> ACTION_BUFFER_EMPTY := False,
                    symbol_accumulator := symbol_accumulator st + 1,
                    emitted := emitted st
                      @ (if byte_offset (tok0 st) + byte_length (tok0 st) \<noteq> byte_offset token
                         then [SKIP (codepoint_offset (tok0 st))
                                (codepoint_offset token
                                   - (codepoint_length (tok0 st) + codepoint_offset (tok0 st)))
                                (line_number (tok0 st)) 0]
                         else [])
                      @ [SHIFT token],
                    reader := rd_next env (reader st) (byte_length token),
                    tok1 := advance_token token,
                    tok0 := advance_token token \<rparr>))"
proof (cases "SCANNER st")
  case True
  then show ?thesis
    using assms(1)
    by (auto simp add: assert_consume_def Let_def consume0_scanner and_then_def)
next
  case False
  with assms(2) have h: "handler st = CallerHandler" by simp
  from False h show ?thesis
    using assms(1)
    by (auto simp add: assert_consume_def Let_def consume0_parser and_then_def)
qed

theorem assert_consume_amended_witness:
  "js_and 0xE2000079 0x0F000000 \<in> {0, 0x01000000, 0x02000000}
   \<and> (SCANNER (ex_parser [120] [] 0) \<or> handler (ex_parser [120] [] 0) = CallerHandler)
   \<and> assert_consume ex_env (ex_parser [120] [] 0) 10 0xE2000079
       = Inr (2, (ex_parser [120] [] 0)
                   \<lparr> tok1 := KernelToken_new\<lparr> byte_length := 1, codepoint_length := 1 \<rparr> \<rparr>)"
proof -
  have h1: "js_and 0xE2000079 0x0F000000 \<in> {0, 0x01000000, 0x02000000}"
    by (simp add: js_and_def to_int32_def)
  have h2: "SCANNER (ex_parser [120] [] 0) \<or> handler (ex_parser [120] [] 0) = CallerHandler"
    by (simp add: ex_parser_def StateIterator_new_def)
  have "assert_consume ex_env (ex_parser [120] [] 0) 10 0xE2000079
       = Inr (2, (ex_parser [120] [] 0)
                   \<lparr> tok1 := KernelToken_new\<lparr> byte_length := 1, codepoint_length := 1 \<rparr> \<rparr>)"
    using assert_consume_amended [OF h1 h2, of ex_env 10]
    by (simp add: js_and_def to_int32_def ex_parser_def StateIterator_new_def ex_env_def
          word_at_def bc_at_def Let_def)
  with h1 h2 show ?thesis by blast
qed

subsection \<open>SCAN_TO at the end of the input\<close>

lemma scan_to_loop_None:
  "scan_to_loop env scan r bc si first lim n temp = Inr None \<Longrightarrow>
   \<exists>token :: KernelToken. rd_offset_at_end env r (byte_offset token)
         \<and> \<not> type_in_targets bc first lim (tk_type token)"
proof (induction n arbitrary: temp)
  case 0
  then show ?case by simp
next
  case (Suc n)
  from Suc.prems obtain token where tok: "scan r bc temp si = Inr token"
    by (cases "scan r bc temp si") (simp_all add: and_then_def)
  show ?case
  proof (cases "type_in_targets bc first lim (tk_type token)")
    case True
    with Suc.prems tok show ?thesis by (simp add: and_then_def)
  next
    case nomatch: False
    show ?thesis
    proof (cases "rd_offset_at_end env r (byte_offset token)")
      case True
      with nomatch show ?thesis by blast
    next
      case False
      with Suc.prems tok nomatch
      have "scan_to_loop env scan r bc si first lim n (scan_to_advance token) = Inr None"
        by (simp add: and_then_def)
      then show ?thesis by (rule Suc.IH)
    qed
  qed
qed

text \<open>
  Claim C10. When the loop of \<open>SCAN_TO\<close> ends at the end of the input (its result
  \<open>Inr None\<close>: some resolved token lies at the end of the input and its type is none of
  the inline targets), \<open>scan_to\<close> returns the absolute word index 1, whatever the
  position of the instruction and the length of its table, and the engine is as it was:
  the lookahead token \<open>tokens[1]\<close> is unchanged.
\<close>

theorem scan_to_exhausted:
  assumes "scan_to_loop env scan (reader st) (bytecode st) (word_at (bytecode st) index)
             (index + 1) (index + 1 + js_and instruction 0xFFFF) n
             (if js_and instruction 0x00100000 > 0
              then (tok1 st)\<lparr> tk_type := 0,
                     byte_offset := byte_offset (tok0 st),
                     codepoint_offset := codepoint_offset (tok0 st),
                     byte_length := 0, codepoint_length := 0 \<rparr>
              else (tok1 st)\<lparr> tk_type := 0 \<rparr>) = Inr None"
  shows "scan_to env scan n st index instruction = Inr (1, st)
         \<and> (\<exists>token :: KernelToken. rd_offset_at_end env (reader st) (byte_offset token)
              \<and> \<not> type_in_targets (bytecode st) (index + 1)
                    (index + 1 + js_and instruction 0xFFFF) (tk_type token))"
proof
  show "scan_to env scan n st index instruction = Inr (1, st)"
    using assms by (simp add: scan_to_def Let_def and_then_def)
  show "\<exists>token :: KernelToken. rd_offset_at_end env (reader st) (byte_offset token)
      \<and> \<not> type_in_targets (bytecode st) (index + 1)
            (index + 1 + js_and instruction 0xFFFF) (tk_type token)"
    using assms by (rule scan_to_loop_None)
qed

theorem scan_to_exhausted_witness:
  "scan_to ex_env (scanner ex_env 1 5) 5 (ex_parser [97, 98] ex_scan_to_bytecode 0x4000005)
     6 0x70000001
   = Inr (1, ex_parser [97, 98] ex_scan_to_bytecode 0x4000005)"
proof -
  have h: "scan_to_loop ex_env (scanner ex_env 1 5)
             (reader (ex_parser [97, 98] ex_scan_to_bytecode 0x4000005))
             (bytecode (ex_parser [97, 98] ex_scan_to_bytecode 0x4000005))
             (word_at (bytecode (ex_parser [97, 98] ex_scan_to_bytecode 0x4000005)) 6)
             (6 + 1) (6 + 1 + js_and 0x70000001 0xFFFF) 5
             (if js_and 0x70000001 0x00100000 > 0
              then (tok1 (ex_parser [97, 98] ex_scan_to_bytecode 0x4000005))\<lparr> tk_type := 0,
                     byte_offset := byte_offset (tok0 (ex_parser [97, 98] ex_scan_to_bytecode 0x4000005)),
                     codepoint_offset := codepoint_offset (tok0 (ex_parser [97, 98] ex_scan_to_bytecode 0x4000005)),
                     byte_length := 0, codepoint_length := 0 \<rparr>
              else (tok1 (ex_parser [97, 98] ex_scan_to_bytecode 0x4000005))\<lparr> tk_type := 0 \<rparr>)
           = Inr None"
    by code_simp
  from scan_to_exhausted [OF h] show ?thesis by (rule conjunct1)
qed

subsection \<open>REDUCE: the dynamic length and the inline SET_PRODUCTION\<close>

lemma goto_chain_top_meta:
  "meta_stack s (pointer s) = a \<Longrightarrow>
   meta_stack (snd (goto_chain bc a s index)) (pointer (snd (goto_chain bc a s index))) = a"
proof (induction bc a s index rule: goto_chain.induct)
  case (1 bc accumulator s index)
  show ?case
  proof (cases "js_and (word_at bc index) 0xF0000000 = 0x20000000")
    case True
    have "meta_stack (push_state s (word_at bc index) accumulator)
            (pointer (push_state s (word_at bc index) accumulator)) = accumulator"
      by (simp add: push_state_def)
    from "1.IH" [OF True this] True show ?thesis
      by (simp del: goto_chain.simps add: goto_chain.simps [of bc accumulator s index])
  next
    case False
    with "1.prems" show ?thesis
      by (simp del: goto_chain.simps add: goto_chain.simps [of bc accumulator s index])
  qed
qed

text \<open>
  The \<open>recover_data\<close> of a block: when the driver loop pops the state a \<open>GOTO\<close> pushed
  last and runs its block, \<open>instruction_executor\<close> reads from the meta slot above the
  new \<open>pointer\<close> the accumulator the \<open>GOTO\<close> saved.
\<close>

lemma recover_data_of_goto:
  "meta_stack (snd (pop_state (stack (snd (goto st0 instruction index)))))
     (pointer (snd (pop_state (stack (snd (goto st0 instruction index))))) + 1)
   = symbol_accumulator st0"
proof -
  have "meta_stack (push_state (stack st0) instruction (symbol_accumulator st0))
          (pointer (push_state (stack st0) instruction (symbol_accumulator st0)))
        = symbol_accumulator st0"
    by (simp add: push_state_def)
  from goto_chain_top_meta [OF this, of "bytecode st0" index]
  show ?thesis
    by (simp add: goto_def pop_state_def Let_def)
qed








subsection \<open>Stepping the debug iterator\<close>

text \<open>
  Claim C9 on the code: \<open>next_state\<close> restores the reader, the production id, the tokens
  and the stack from the snapshot it is given, but not \<open>symbol_accumulator\<close>, which stays
  as the previous call on the same iterator left it. Two calls on the same snapshot of a
  new iterator, whose block shifts and then reduces with the dynamic encoding, emit
  different \<open>Reduce\<close> actions: length 1 the first time, length 2 the second.
\<close>

theorem next_state_depends_on_earlier_calls:
  "(case next_state ex_env (scanner ex_env 0 0) 3
           (DebugIterator_new ([120], 0) ex_debug_bytecode 0x4000003)
           (active_debug_state_new ex_env
              (DebugIterator_new ([120], 0) ex_debug_bytecode 0x4000003) 0x4000003) (- 1) of
      Inl e \<Rightarrow> False
    | Inr (first_state, it1) \<Rightarrow>
        (case next_state ex_env (scanner ex_env 0 0) 3 it1
                (active_debug_state_new ex_env
                   (DebugIterator_new ([120], 0) ex_debug_bytecode 0x4000003) 0x4000003)
                (- 1) of
           Inl e \<Rightarrow> False
         | Inr (second_state, it2) \<Rightarrow>
             dbg_actions first_state = [SHIFT KernelToken_new, REDUCE 1 1 (- 1)]
             \<and> dbg_actions second_state = [SHIFT KernelToken_new, REDUCE 1 2 (- 1)]))"
  by code_simp

subsection \<open>The scanner and skipped tokens\<close>

lemma scanner_loop_nested_runs:
  assumes "nested_runs env scan scanner_start_pointer n sc skipped token_x"
  shows "scanner_loop env scan n sc current_token scanner_start_pointer =
     Inr (current_token\<lparr>
            codepoint_offset :=
              codepoint_offset current_token + sum_list (map codepoint_length skipped),
            byte_offset := byte_offset current_token + sum_list (map byte_length skipped),
            codepoint_length := codepoint_length token_x,
            byte_length := byte_length token_x,
            tk_type := tk_type token_x,
            line_offset := line_offset token_x,
            line_number := line_number token_x \<rparr>)"
  using assms
proof (induction arbitrary: current_token rule: nested_runs.induct)
  case (last_run n sc sc1 token earlier)
  then show ?case by (simp add: and_then_def)
next
  case (skipped_run n sc sc1 token earlier skipped token_x)
  then show ?case by (simp add: and_then_def add.assoc)
qed

text \<open>
  Claim C8. When the input at the token to resolve is a skippable region followed by a
  token of another type X (\<open>nested_runs\<close>), \<open>scanner\<close> returns one token: its type and
  lengths are those of the token of type X, and its offsets are those of the token it
  was given plus the lengths of the skipped tokens, so that its \<open>byte_offset\<close> is the end
  of the skipped region. Each skipped token advances the outer token past its span and
  restarts the nested engine from its entry pointer.
\<close>

theorem scanner_skips_region:
  assumes "nested_runs env (scanner env d n) scanner_start_pointer n
             ((StateIterator_new (snd (rd_setCursorTo env r current_token)) bc
                 scanner_start_pointer True)\<lparr> tok1 := current_token, tok0 := current_token \<rparr>)
             skipped token_x"
  shows "scanner env (Suc d) n r bc current_token scanner_start_pointer =
     Inr (current_token\<lparr>
            codepoint_offset :=
              codepoint_offset current_token + sum_list (map codepoint_length skipped),
            byte_offset := byte_offset current_token + sum_list (map byte_length skipped),
            codepoint_length := codepoint_length token_x,
            byte_length := byte_length token_x,
            tk_type := tk_type token_x,
            line_offset := line_offset token_x,
            line_number := line_number token_x \<rparr>)
     \<and> tk_type token_x \<noteq> skipped_scan_prod env"
proof
  show "scanner env (Suc d) n r bc current_token scanner_start_pointer =
     Inr (current_token\<lparr>
            codepoint_offset :=
              codepoint_offset current_token + sum_list (map codepoint_length skipped),
            byte_offset := byte_offset current_token + sum_list (map byte_length skipped),
            codepoint_length := codepoint_length token_x,
            byte_length := byte_length token_x,
            tk_type := tk_type token_x,
            line_offset := line_offset token_x,
            line_number := line_number token_x \<rparr>)"
    using scanner_loop_nested_runs [OF assms, of current_token]
    by (simp add: Let_def)
  show "tk_type token_x \<noteq> skipped_scan_prod env"
    using assms by (induction rule: nested_runs.induct) simp_all
qed


lemma ex_nested_run_1:
  "start ex_env (scanner ex_env 0 8) 7 ex_scanner_start ScannerHandler (Some (\<lambda>a it. [])) (- 1)
     = Inr (ex_nested_run 7 ex_scanner_start)
   \<and> rev (emitted (ex_nested_run 7 ex_scanner_start))
     = TOKEN \<lparr> tk_type = 9009, byte_offset = 0, byte_length = 1, codepoint_offset = 0,
               codepoint_length = 1, line_number = 0, line_offset = 0 \<rparr> # []"
proof
  have "\<not> isl (start ex_env (scanner ex_env 0 8) 7 ex_scanner_start ScannerHandler
                  (Some (\<lambda>a it. [])) (- 1))"
    by code_simp
  then show "start ex_env (scanner ex_env 0 8) 7 ex_scanner_start ScannerHandler
               (Some (\<lambda>a it. [])) (- 1) = Inr (ex_nested_run 7 ex_scanner_start)"
    by (simp add: ex_nested_run_def)
  show "rev (emitted (ex_nested_run 7 ex_scanner_start))
     = TOKEN \<lparr> tk_type = 9009, byte_offset = 0, byte_length = 1, codepoint_offset = 0,
               codepoint_length = 1, line_number = 0, line_offset = 0 \<rparr> # []"
    by code_simp
qed

lemma ex_nested_run_2:
  "start ex_env (scanner ex_env 0 8) 6 (ex_restart (ex_nested_run 7 ex_scanner_start))
       ScannerHandler (Some (\<lambda>a it. [])) (- 1)
     = Inr (ex_nested_run 6 (ex_restart (ex_nested_run 7 ex_scanner_start)))
   \<and> rev (emitted (ex_nested_run 6 (ex_restart (ex_nested_run 7 ex_scanner_start))))
     = TOKEN \<lparr> tk_type = 9009, byte_offset = 1, byte_length = 1, codepoint_offset = 1,
               codepoint_length = 1, line_number = 0, line_offset = 0 \<rparr>
       # [TOKEN \<lparr> tk_type = 9009, byte_offset = 0, byte_length = 1, codepoint_offset = 0,
               codepoint_length = 1, line_number = 0, line_offset = 0 \<rparr>]"
proof
  have "\<not> isl (start ex_env (scanner ex_env 0 8) 6 (ex_restart (ex_nested_run 7 ex_scanner_start))
                  ScannerHandler (Some (\<lambda>a it. [])) (- 1))"
    by code_simp
  then show "start ex_env (scanner ex_env 0 8) 6 (ex_restart (ex_nested_run 7 ex_scanner_start))
       ScannerHandler (Some (\<lambda>a it. [])) (- 1)
     = Inr (ex_nested_run 6 (ex_restart (ex_nested_run 7 ex_scanner_start)))"
    by (simp add: ex_nested_run_def)
  show "rev (emitted (ex_nested_run 6 (ex_restart (ex_nested_run 7 ex_scanner_start))))
     = TOKEN \<lparr> tk_type = 9009, byte_offset = 1, byte_length = 1, codepoint_offset = 1,
               codepoint_length = 1, line_number = 0, line_offset = 0 \<rparr>
       # [TOKEN \<lparr> tk_type = 9009, byte_offset = 0, byte_length = 1, codepoint_offset = 0,
               codepoint_length = 1, line_number = 0, line_offset = 0 \<rparr>]"
    by code_simp
qed

lemma ex_nested_run_3:
  "start ex_env (scanner ex_env 0 8) 5
       (ex_restart (ex_nested_run 6 (ex_restart (ex_nested_run 7 ex_scanner_start))))
       ScannerHandler (Some (\<lambda>a it. [])) (- 1)
     = Inr (ex_nested_run 5
             (ex_restart (ex_nested_run 6 (ex_restart (ex_nested_run 7 ex_scanner_start)))))
   \<and> rev (emitted (ex_nested_run 5
             (ex_restart (ex_nested_run 6 (ex_restart (ex_nested_run 7 ex_scanner_start))))))
     = TOKEN \<lparr> tk_type = 88, byte_offset = 2, byte_length = 1, codepoint_offset = 2,
               codepoint_length = 1, line_number = 0, line_offset = 0 \<rparr>
       # [TOKEN \<lparr> tk_type = 9009, byte_offset = 1, byte_length = 1, codepoint_offset = 1,
               codepoint_length = 1, line_number = 0, line_offset = 0 \<rparr>,
          TOKEN \<lparr> tk_type = 9009, byte_offset = 0, byte_length = 1, codepoint_offset = 0,
               codepoint_length = 1, line_number = 0, line_offset = 0 \<rparr>]"
proof
  have "\<not> isl (start ex_env (scanner ex_env 0 8) 5
       (ex_restart (ex_nested_run 6 (ex_restart (ex_nested_run 7 ex_scanner_start))))
       ScannerHandler (Some (\<lambda>a it. [])) (- 1))"
    by code_simp
  then show "start ex_env (scanner ex_env 0 8) 5
       (ex_restart (ex_nested_run 6 (ex_restart (ex_nested_run 7 ex_scanner_start))))
       ScannerHandler (Some (\<lambda>a it. [])) (- 1)
     = Inr (ex_nested_run 5
             (ex_restart (ex_nested_run 6 (ex_restart (ex_nested_run 7 ex_scanner_start)))))"
    by (simp add: ex_nested_run_def)
  show "rev (emitted (ex_nested_run 5
             (ex_restart (ex_nested_run 6 (ex_restart (ex_nested_run 7 ex_scanner_start))))))
     = TOKEN \<lparr> tk_type = 88, byte_offset = 2, byte_length = 1, codepoint_offset = 2,
               codepoint_length = 1, line_number = 0, line_offset = 0 \<rparr>
       # [TOKEN \<lparr> tk_type = 9009, byte_offset = 1, byte_length = 1, codepoint_offset = 1,
               codepoint_length = 1, line_number = 0, line_offset = 0 \<rparr>,
          TOKEN \<lparr> tk_type = 9009, byte_offset = 0, byte_length = 1, codepoint_offset = 0,
               codepoint_length = 1, line_number = 0, line_offset = 0 \<rparr>]"
    by code_simp
qed

lemma ex_nested_runs:
  "nested_runs ex_env (scanner ex_env 0 8) 0x4000003 8 ex_scanner_start
     [\<lparr> tk_type = 9009, byte_offset = 0, byte_length = 1, codepoint_offset = 0,
        codepoint_length = 1, line_number = 0, line_offset = 0 \<rparr>,
      \<lparr> tk_type = 9009, byte_offset = 1, byte_length = 1, codepoint_offset = 1,
        codepoint_length = 1, line_number = 0, line_offset = 0 \<rparr>]
     \<lparr> tk_type = 88, byte_offset = 2, byte_length = 1, codepoint_offset = 2,
       codepoint_length = 1, line_number = 0, line_offset = 0 \<rparr>"
proof -
  have skip: "skipped_scan_prod ex_env = 9009" by (simp add: ex_env_def)
  have three: "nested_runs ex_env (scanner ex_env 0 8) 0x4000003 (Suc 5)
     (ex_restart (ex_nested_run 6 (ex_restart (ex_nested_run 7 ex_scanner_start)))) []
     \<lparr> tk_type = 88, byte_offset = 2, byte_length = 1, codepoint_offset = 2,
       codepoint_length = 1, line_number = 0, line_offset = 0 \<rparr>"
    using ex_nested_run_3
    by (intro nested_runs.last_run [where sc_after = "ex_nested_run 5
             (ex_restart (ex_nested_run 6 (ex_restart (ex_nested_run 7 ex_scanner_start))))"])
       (simp_all add: skip)
  have two: "nested_runs ex_env (scanner ex_env 0 8) 0x4000003 (Suc 6)
     (ex_restart (ex_nested_run 7 ex_scanner_start))
     [\<lparr> tk_type = 9009, byte_offset = 1, byte_length = 1, codepoint_offset = 1,
        codepoint_length = 1, line_number = 0, line_offset = 0 \<rparr>]
     \<lparr> tk_type = 88, byte_offset = 2, byte_length = 1, codepoint_offset = 2,
       codepoint_length = 1, line_number = 0, line_offset = 0 \<rparr>"
    using ex_nested_run_2 three
    by (intro nested_runs.skipped_run [where sc_after =
             "ex_nested_run 6 (ex_restart (ex_nested_run 7 ex_scanner_start))"])
       (simp_all add: skip ex_restart_def)
  have "nested_runs ex_env (scanner ex_env 0 8) 0x4000003 (Suc 7) ex_scanner_start
     [\<lparr> tk_type = 9009, byte_offset = 0, byte_length = 1, codepoint_offset = 0,
        codepoint_length = 1, line_number = 0, line_offset = 0 \<rparr>,
      \<lparr> tk_type = 9009, byte_offset = 1, byte_length = 1, codepoint_offset = 1,
        codepoint_length = 1, line_number = 0, line_offset = 0 \<rparr>]
     \<lparr> tk_type = 88, byte_offset = 2, byte_length = 1, codepoint_offset = 2,
       codepoint_length = 1, line_number = 0, line_offset = 0 \<rparr>"
    using ex_nested_run_1 two
    by (intro nested_runs.skipped_run [where sc_after = "ex_nested_run 7 ex_scanner_start"])
       (simp_all add: skip ex_restart_def)
  then show ?thesis by simp
qed

theorem scanner_skips_region_witness:
  "scanner ex_env (Suc 0) 8 ([32, 32, 88], 0) ex_scanner_bytecode KernelToken_new 0x4000003
     = Inr \<lparr> tk_type = 88, byte_offset = 2, byte_length = 1, codepoint_offset = 2,
             codepoint_length = 1, line_number = 0, line_offset = 0 \<rparr>"
  using scanner_skips_region [where env = ex_env and d = 0 and n = 8
          and r = "([32, 32, 88], 0)" and bc = ex_scanner_bytecode
          and current_token = KernelToken_new and scanner_start_pointer = "0x4000003",
          OF ex_nested_runs [unfolded ex_scanner_start_def]]
  by (simp add: KernelToken_new_def)

subsection \<open>INDEX_JUMP and HASH_JUMP\<close>

lemma hash_probe_chain:
  "hash_chain bc hts n slot = Some cells \<Longrightarrow>
   hash_probe bc hts field_start field_size v n slot =
     Inr (case find (\<lambda>cell. cell_value cell = v) cells of
            Some cell \<Rightarrow> field_start + cell_start cell
          | None \<Rightarrow> field_size + field_start)"
proof (induction n arbitrary: slot cells)
  case 0
  then show ?case by simp
next
  case (Suc n)
  let ?cell = "word_at bc (hts + slot)"
  show ?case
  proof (cases "cell_next ?cell = 0")
    case True
    with Suc.prems have "cells = [?cell]" by (simp add: Let_def)
    with True show ?thesis
      by (simp add: Let_def cell_value_def cell_next_def cell_start_def)
  next
    case False
    with Suc.prems obtain rest where
      rest: "hash_chain bc hts n (slot + cell_next ?cell) = Some rest" "cells = ?cell # rest"
      by (auto simp add: Let_def)
    from Suc.IH [OF rest(1)] False rest(2) show ?thesis
      by (simp add: Let_def cell_value_def cell_next_def cell_start_def)
  qed
qed

lemma read_input_bytecode:
  "read_input env scan st input_type ptr token put = Inr (v, st1) \<Longrightarrow>
   (\<And>t. bytecode (put t) = bytecode st) \<Longrightarrow> bytecode st1 = bytecode st"
  by (auto simp add: read_input_def Let_def and_then_def split: if_splits sum.splits)

lemma get_input_value_bytecode:
  "get_input_value env scan st input_type token_transition ptr = Inr (v, st1) \<Longrightarrow>
   bytecode st1 = bytecode st"
  by (auto simp add: get_input_value_def Let_def split: if_splits dest!: read_input_bytecode)


text \<open>
  Claim C6. Take an \<open>INDEX_JUMP\<close> and a \<open>HASH_JUMP\<close> that read their discriminant the
  same way (same input kind, lexer mode and scanner pointer) on the same engine, and a
  discriminant value \<open>v\<close> on which their tables agree: \<open>v\<close> is the value of a cell on
  its probe sequence in the hash table exactly when it is in the range of rows of the
  index table. Then both instructions leave the engine in the same state and transfer
  control to the same outcome: the block of \<open>v\<close> in either table when \<open>v\<close> is in the
  tables, the default block of either table otherwise. The hash probe ends within the
  fuel that the probe sequence needs.
\<close>

theorem index_jump_hash_jump_agree:
  assumes "get_input_value env scan st (js_and (js_shr index_instruction 22) 0x7)
             (js_and (js_shr index_instruction 26) 0x3) (word_at (bytecode st) index_i)
           = Inr (v, st_after)"
    and "js_and (js_shr hash_instruction 22) 0x7 = js_and (js_shr index_instruction 22) 0x7"
    and "js_and (js_shr hash_instruction 26) 0x3 = js_and (js_shr index_instruction 26) 0x3"
    and "word_at (bytecode st) index_h = word_at (bytecode st) index_i"
    and "hash_chain (bytecode st) (index_h + 2) n
           (js_and v (js_shl 1 (nat (js_and (js_ushr (word_at (bytecode st) (index_h + 1)) 16)
                                      0xFFFF)) - 1))
         = Some cells"
    and "(\<exists>cell \<in> set cells. cell_value cell = v)
         \<longleftrightarrow> (0 \<le> v - js_and index_instruction 0xFFFF
              \<and> v - js_and index_instruction 0xFFFF
                  < js_shr (word_at (bytecode st) (index_i + 1)) 16)"
  shows "index_jump env scan st index_i index_instruction =
           Inr (index_block (index_i + 2) (js_and index_instruction 0xFFFF)
                  (js_and (word_at (bytecode st) (index_i + 1)) 0xFFFF)
                  (spec_dispatch (\<lambda>x. \<exists>cell \<in> set cells. cell_value cell = x) v),
                st_after)
       \<and> hash_jump env scan n st index_h hash_instruction =
           Inr (hash_block (index_h + 2 + js_and (word_at (bytecode st) (index_h + 1)) 0xFFFF)
                  (js_and hash_instruction 0xFFFF) cells
                  (spec_dispatch (\<lambda>x. \<exists>cell \<in> set cells. cell_value cell = x) v),
                st_after)"
proof
  show "index_jump env scan st index_i index_instruction =
           Inr (index_block (index_i + 2) (js_and index_instruction 0xFFFF)
                  (js_and (word_at (bytecode st) (index_i + 1)) 0xFFFF)
                  (spec_dispatch (\<lambda>x. \<exists>cell \<in> set cells. cell_value cell = x) v),
                st_after)"
    using assms(1) assms(6)
    by (simp add: index_jump_def Let_def and_then_def spec_dispatch_def)
next
  have bc: "bytecode st_after = bytecode st"
    using assms(1) by (rule get_input_value_bytecode)
  have giv: "get_input_value env scan st (js_and (js_shr hash_instruction 22) 0x7)
             (js_and (js_shr hash_instruction 26) 0x3) (word_at (bytecode st) index_h)
           = Inr (v, st_after)"
    using assms(1-4) by simp
  have none: "find (\<lambda>cell. cell_value cell = v) cells = None
      \<longleftrightarrow> \<not> (\<exists>cell \<in> set cells. cell_value cell = v)"
    by (auto simp add: find_None_iff)
  show "hash_jump env scan n st index_h hash_instruction =
           Inr (hash_block (index_h + 2 + js_and (word_at (bytecode st) (index_h + 1)) 0xFFFF)
                  (js_and hash_instruction 0xFFFF) cells
                  (spec_dispatch (\<lambda>x. \<exists>cell \<in> set cells. cell_value cell = x) v),
                st_after)"
  proof (cases "\<exists>cell \<in> set cells. cell_value cell = v")
    case True
    then show ?thesis
      using giv hash_probe_chain [OF assms(5)]
      by (simp add: hash_jump_def Let_def and_then_def spec_dispatch_def bc ac_simps
            split: option.splits)
  next
    case False
    with none have "find (\<lambda>cell. cell_value cell = v) cells = None" by simp
    with False show ?thesis
      using giv hash_probe_chain [OF assms(5)]
      by (simp add: hash_jump_def Let_def and_then_def spec_dispatch_def bc ac_simps)
  qed
qed

theorem index_jump_hash_jump_agree_witness:
  "index_jump ex_env (scanner ex_env 0 0)
       ((ex_parser [] ex_jump_bytecode 0)\<lparr> production_id := 6 \<rparr>) 4 0x90000005
     = Inr (8, (ex_parser [] ex_jump_bytecode 0)\<lparr> production_id := 6 \<rparr>)
   \<and> hash_jump ex_env (scanner ex_env 0 0) 3
       ((ex_parser [] ex_jump_bytecode 0)\<lparr> production_id := 6 \<rparr>) 10 0xA0000002
     = Inr (14, (ex_parser [] ex_jump_bytecode 0)\<lparr> production_id := 6 \<rparr>)"
proof -
  let ?st = "(ex_parser [] ex_jump_bytecode 0)\<lparr> production_id := 6 \<rparr>"
  have bc: "bytecode ?st = ex_jump_bytecode"
    by (simp add: ex_parser_def StateIterator_new_def)
  have h1: "get_input_value ex_env (scanner ex_env 0 0) ?st (js_and (js_shr 0x90000005 22) 0x7)
             (js_and (js_shr 0x90000005 26) 0x3) (word_at (bytecode ?st) 4)
           = Inr (6, ?st)"
    by (simp add: get_input_value_def js_and_def js_shr_def to_int32_def)
  have h2: "js_and (js_shr 0xA0000002 22) 0x7 = js_and (js_shr 0x90000005 22) 0x7"
    by (simp add: js_and_def js_shr_def to_int32_def)
  have h3: "js_and (js_shr 0xA0000002 26) 0x3 = js_and (js_shr 0x90000005 26) 0x3"
    by (simp add: js_and_def js_shr_def to_int32_def)
  have h4: "word_at (bytecode ?st) 10 = word_at (bytecode ?st) 4"
    unfolding bc by code_simp
  have h5: "hash_chain (bytecode ?st) (10 + 2) 3
           (js_and 6 (js_shl 1 (nat (js_and (js_ushr (word_at (bytecode ?st) (10 + 1)) 16)
                                      0xFFFF)) - 1))
         = Some [0x80000006]"
    unfolding bc by code_simp
  have h6: "(\<exists>cell \<in> set [0x80000006]. cell_value cell = 6)
         \<longleftrightarrow> (0 \<le> 6 - js_and 0x90000005 0xFFFF
              \<and> 6 - js_and 0x90000005 0xFFFF
                  < js_shr (word_at (bytecode ?st) (4 + 1)) 16)"
    unfolding bc by code_simp
  have v1: "index_block (4 + 2) (js_and 0x90000005 0xFFFF)
                  (js_and (word_at (bytecode ?st) (4 + 1)) 0xFFFF)
                  (spec_dispatch (\<lambda>x. \<exists>cell \<in> set [0x80000006]. cell_value cell = x) 6) = 8"
    unfolding bc by code_simp
  have v2: "hash_block (10 + 2 + js_and (word_at (bytecode ?st) (10 + 1)) 0xFFFF)
                  (js_and 0xA0000002 0xFFFF) [0x80000006]
                  (spec_dispatch (\<lambda>x. \<exists>cell \<in> set [0x80000006]. cell_value cell = x) 6) = 14"
    unfolding bc by code_simp
  from index_jump_hash_jump_agree [OF h1 h2 h3 h4 h5 h6] show ?thesis
    unfolding v1 v2 .
qed

subsection \<open>Termination and the terminal action\<close>

lemma and_then_Inr:
  "and_then m f = Inr y \<Longrightarrow> \<exists>x. m = Inr x \<and> f x = Inr y"
  by (cases m) (simp_all add: and_then_def)

lemma exec_loop_preserves:
  assumes c1: "\<And>st i st'. Q st \<Longrightarrow> consume env st i = Inr st' \<Longrightarrow> Q st'"
      and c2: "\<And>st i idx. Q st \<Longrightarrow> Q (snd (goto st i idx))"
      and c3: "\<And>st i. Q st \<Longrightarrow> Q (set_production st i)"
      and c4: "\<And>st i idx rec idx' st'. Q st \<Longrightarrow> reduce st i idx rec = Inr (idx', st') \<Longrightarrow> Q st'"
      and c5: "\<And>st i idx idx' st'. Q st \<Longrightarrow> set_token env st i idx = Inr (idx', st') \<Longrightarrow> Q st'"
      and c6: "\<And>st i idx idx' st'. Q st \<Longrightarrow> fork fh st i idx = Inr (idx', st') \<Longrightarrow> Q st'"
      and c7: "\<And>st i idx idx' st' m. Q st \<Longrightarrow> scan_to env scan m st idx i = Inr (idx', st') \<Longrightarrow> Q st'"
      and c9: "\<And>st i idx idx' st'. Q st \<Longrightarrow> index_jump env scan st idx i = Inr (idx', st') \<Longrightarrow> Q st'"
      and c10: "\<And>st i idx idx' st' m. Q st \<Longrightarrow> hash_jump env scan m st idx i = Inr (idx', st') \<Longrightarrow> Q st'"
      and c11: "\<And>st i. Q st \<Longrightarrow> Q (push_fail_state env st i)"
      and c14: "\<And>st i idx idx' st'. Q st \<Longrightarrow> assert_consume env st idx i = Inr (idx', st') \<Longrightarrow> Q st'"
  shows "Q st \<Longrightarrow> exec_loop env scan fh n st idx rec fm = Inr (fm', st') \<Longrightarrow> Q st'"
proof (induction n arbitrary: st idx)
  case 0
  then show ?case by simp
next
  case (Suc n)
  let ?i = "word_at (bytecode st) idx"
  let ?op = "js_and (js_shr ?i 28) 0xF"
  note run = Suc.prems(2)
  note q = Suc.prems(1)
  consider "?op = 1" | "?op = 2" | "?op = 3" | "?op = 4" | "?op = 5" | "?op = 6" | "?op = 7"
    | "?op = 8 \<or> ?op = 9" | "?op = 10" | "?op = 11" | "?op = 12" | "?op = 13" | "?op = 14"
    | "?op \<notin> {1, 2, 3, 4, 5, 6, 7, 8, 9, 10, 11, 12, 13, 14}"
    by auto
  then show ?case
  proof cases
    case 1
    with run have "and_then (consume env st ?i)
        (\<lambda>st'. exec_loop env scan fh n st' (idx + 1) rec fm) = Inr (fm', st')"
      by (simp add: Let_def)
    then obtain s where "consume env st ?i = Inr s"
        "exec_loop env scan fh n s (idx + 1) rec fm = Inr (fm', st')"
      by (auto dest: and_then_Inr)
    with q show ?thesis by (auto intro: Suc.IH c1)
  next
    case 2
    with run have "exec_loop env scan fh n (snd (goto st ?i (idx + 1)))
        (fst (goto st ?i (idx + 1))) rec fm = Inr (fm', st')"
      by (simp add: Let_def)
    with q show ?thesis by (auto intro: Suc.IH c2)
  next
    case 3
    with run have "exec_loop env scan fh n (set_production st ?i) (idx + 1) rec fm
        = Inr (fm', st')"
      by (simp add: Let_def)
    with q show ?thesis by (auto intro: Suc.IH c3)
  next
    case 4
    with run have "and_then (reduce st ?i (idx + 1) rec)
        (\<lambda>(index', st'). exec_loop env scan fh n st' index' rec fm) = Inr (fm', st')"
      by (simp add: Let_def)
    then obtain j s where "reduce st ?i (idx + 1) rec = Inr (j, s)"
        "exec_loop env scan fh n s j rec fm = Inr (fm', st')"
      by (auto dest!: and_then_Inr)
    with q show ?thesis by (auto intro: Suc.IH c4)
  next
    case 5
    with run have "and_then (set_token env st ?i (idx + 1))
        (\<lambda>(index', st'). exec_loop env scan fh n st' index' rec fm) = Inr (fm', st')"
      by (simp add: Let_def)
    then obtain j s where "set_token env st ?i (idx + 1) = Inr (j, s)"
        "exec_loop env scan fh n s j rec fm = Inr (fm', st')"
      by (auto dest!: and_then_Inr)
    with q show ?thesis by (auto intro: Suc.IH c5)
  next
    case 6
    with run have "and_then (fork fh st ?i (idx + 1))
        (\<lambda>(index', st'). exec_loop env scan fh n st' index' rec fm) = Inr (fm', st')"
      by (simp add: Let_def)
    then obtain j s where "fork fh st ?i (idx + 1) = Inr (j, s)"
        "exec_loop env scan fh n s j rec fm = Inr (fm', st')"
      by (auto dest!: and_then_Inr)
    with q show ?thesis by (auto intro: Suc.IH c6)
  next
    case 7
    with run have "and_then (scan_to env scan n st (idx + 1) ?i)
        (\<lambda>(index', st'). exec_loop env scan fh n st' index' rec fm) = Inr (fm', st')"
      by (simp add: Let_def)
    then obtain j s where "scan_to env scan n st (idx + 1) ?i = Inr (j, s)"
        "exec_loop env scan fh n s j rec fm = Inr (fm', st')"
      by (auto dest!: and_then_Inr)
    with q show ?thesis by (auto intro: Suc.IH c7)
  next
    case 8
    with run have "and_then (index_jump env scan st (idx + 1) ?i)
        (\<lambda>(index', st'). exec_loop env scan fh n st' index' rec fm) = Inr (fm', st')"
      by (auto simp add: Let_def)
    then obtain j s where "index_jump env scan st (idx + 1) ?i = Inr (j, s)"
        "exec_loop env scan fh n s j rec fm = Inr (fm', st')"
      by (auto dest!: and_then_Inr)
    with q show ?thesis by (auto intro: Suc.IH c9)
  next
    case 9
    with run have "and_then (hash_jump env scan n st (idx + 1) ?i)
        (\<lambda>(index', st'). exec_loop env scan fh n st' index' rec fm) = Inr (fm', st')"
      by (simp add: Let_def)
    then obtain j s where "hash_jump env scan n st (idx + 1) ?i = Inr (j, s)"
        "exec_loop env scan fh n s j rec fm = Inr (fm', st')"
      by (auto dest!: and_then_Inr)
    with q show ?thesis by (auto intro: Suc.IH c10)
  next
    case 10
    with run have "exec_loop env scan fh n (push_fail_state env st ?i) (idx + 1) rec fm
        = Inr (fm', st')"
      by (simp add: Let_def)
    with q show ?thesis by (auto intro: Suc.IH c11)
  next
    case 11
    with run have "exec_loop env scan fh n st (repeat (idx + 1) ?i) rec fm = Inr (fm', st')"
      by (simp add: Let_def)
    with q show ?thesis by (auto intro: Suc.IH)
  next
    case 12
    with run have "exec_loop env scan fh n st (try_lazy (idx + 1) ?i) rec fm = Inr (fm', st')"
      by (simp add: Let_def)
    with q show ?thesis by (auto intro: Suc.IH)
  next
    case 13
    with run have "and_then (assert_consume env st (idx + 1) ?i)
        (\<lambda>(index', st'). exec_loop env scan fh n st' index' rec fm) = Inr (fm', st')"
      by (simp add: Let_def)
    then obtain j s where "assert_consume env st (idx + 1) ?i = Inr (j, s)"
        "exec_loop env scan fh n s j rec fm = Inr (fm', st')"
      by (auto dest!: and_then_Inr)
    with q show ?thesis by (auto intro: Suc.IH c14)
  next
    case 14
    with run have "st' = st"
      by (auto simp add: Let_def split: if_splits)
    with q show ?thesis by simp
  qed
qed


lemma start_loop_preserves:
  assumes exec: "\<And>st idx rec fm fm' st' m.
            Q st \<Longrightarrow> exec_loop env scan fh m st idx rec fm = Inr (fm', st') \<Longrightarrow> Q st'"
      and pop: "\<And>st. Q st \<Longrightarrow> Q (st\<lparr> stack := snd (pop_state (stack st)) \<rparr>)"
  shows "Q st \<Longrightarrow> start_loop env scan fh root n st fm lgs = Inr st' \<Longrightarrow>
         \<exists>st_f fm_f lgs_f. Q st_f \<and> emit st_f (final_action env st_f fm_f lgs_f root) = Inr st'"
proof (induction n arbitrary: st fm lgs)
  case 0
  then show ?case by simp
next
  case (Suc n)
  note q = Suc.prems(1) and run = Suc.prems(2)
  show ?case
  proof (cases "pointer (stack st) < 1")
    case True
    with run q show ?thesis by auto
  next
    case False
    let ?state = "fst (pop_state (stack st))"
    let ?st1 = "st\<lparr> stack := snd (pop_state (stack st)) \<rparr>"
    have q1: "Q ?st1" using q by (rule pop)
    show ?thesis
    proof (cases "?state > 0")
      case pos: True
      let ?gate = "js_shl (normal_state_mask env) (if fm then 1 else 0)"
      let ?lgs = "if fm then lgs else ?state"
      show ?thesis
      proof (cases "js_and ?state ?gate \<noteq> 0")
        case True
        with run False pos have "and_then (instruction_executor env scan fh n ?st1 ?state fm)
            (\<lambda>(fail_mode', st2). start_loop env scan fh root n st2 fail_mode' ?lgs) = Inr st'"
          by (simp add: Let_def)
        then obtain fm2 st2 where
          ex: "instruction_executor env scan fh n ?st1 ?state fm = Inr (fm2, st2)"
          and rest: "start_loop env scan fh root n st2 fm2 ?lgs = Inr st'"
          by (auto dest!: and_then_Inr)
        from ex q1 have "Q st2"
          unfolding instruction_executor_def by (auto intro: exec)
        from Suc.IH [OF this rest] show ?thesis .
      next
        case nogate: False
        with run False pos have "start_loop env scan fh root n ?st1 fm ?lgs = Inr st'"
          by (simp add: Let_def)
        from Suc.IH [OF q1 this] show ?thesis .
      qed
    next
      case neg: False
      with run False have "start_loop env scan fh root n ?st1 fm lgs = Inr st'"
        by (simp add: Let_def)
      from Suc.IH [OF q1 this] show ?thesis .
    qed
  qed
qed

lemma emit_Inr: "emit st a = Inr st' \<Longrightarrow> st' = st\<lparr> emitted := emitted st @ [a] \<rparr>"
  by (auto simp add: emit_def split: handler.splits ParseAction.splits)

lemma emits_only_emit:
  "emits_only before h role st \<Longrightarrow> emit st a = Inr st' \<Longrightarrow> \<not> is_terminal a \<Longrightarrow>
   emits_only before h role st'"
  by (auto simp add: emits_only_def dest!: emit_Inr)

lemma emits_only_frame:
  "emits_only before h role st \<Longrightarrow> handler st' = handler st \<Longrightarrow> SCANNER st' = SCANNER st \<Longrightarrow>
   emitted st' = emitted st \<Longrightarrow> emits_only before h role st'"
  by (simp add: emits_only_def)

lemma emits_only_consume:
  "emits_only before h role st \<Longrightarrow> consume env st i = Inr st' \<Longrightarrow> emits_only before h role st'"
  by (auto simp add: consume_def emitShift_def Let_def emits_only_def
        split: if_splits dest!: and_then_Inr emit_Inr)

lemma emits_only_reduce:
  "emits_only before h role st \<Longrightarrow> reduce st i idx rec = Inr (idx', st') \<Longrightarrow>
   emits_only before h role st'"
  by (auto simp add: reduce_def emitReduce_def Let_def emits_only_def set_production_def
        split: if_splits dest!: and_then_Inr emit_Inr)

lemma emits_only_set_token:
  "emits_only before h role st \<Longrightarrow> set_token env st i idx = Inr (idx', st') \<Longrightarrow>
   emits_only before h role st'"
proof -
  assume q: "emits_only before h role st" and r: "set_token env st i idx = Inr (idx', st')"
  from r obtain s where s: "(if js_and i 0x01000000 \<noteq> 0 then consume env st 0 else Inr st) = Inr s"
    and st': "handler st' = handler s" "SCANNER st' = SCANNER s" "emitted st' = emitted s"
    by (auto simp add: set_token_def Let_def split: if_splits dest!: and_then_Inr)
  from s q have "emits_only before h role s"
    by (auto split: if_splits intro: emits_only_consume)
  with st' show ?thesis by (auto intro: emits_only_frame)
qed

lemma emits_only_assert_consume:
  "emits_only before h role st \<Longrightarrow> assert_consume env st idx i = Inr (idx', st') \<Longrightarrow>
   emits_only before h role st'"
proof -
  assume q: "emits_only before h role st" and r: "assert_consume env st idx i = Inr (idx', st')"
  have upd: "\<And>t. emits_only before h role (st\<lparr> tok1 := t \<rparr>)"
    using q by (simp add: emits_only_def)
  from r show ?thesis
    by (auto simp add: assert_consume_def Let_def split: if_splits
          dest!: and_then_Inr intro: emits_only_consume upd q)
qed

lemma emit_all_emits_only:
  "emits_only before h role st \<Longrightarrow> emit_all st actions = Inr st' \<Longrightarrow>
   \<forall>a \<in> set actions. \<not> is_terminal a \<Longrightarrow> emits_only before h role st'"
proof (induction actions arbitrary: st)
  case Nil
  then show ?case by simp
next
  case (Cons a actions)
  from Cons.prems(2) obtain s where s: "emit st a = Inr s" "emit_all s actions = Inr st'"
    by (auto dest!: and_then_Inr)
  from Cons.prems(1) s(1) Cons.prems(3) have "emits_only before h role s"
    by (auto intro: emits_only_emit)
  from Cons.IH [OF this s(2)] Cons.prems(3) show ?case by simp
qed

lemma emits_only_fork:
  assumes "\<forall>f pointer it action. fh = Some f \<longrightarrow> action \<in> set (f pointer it)
             \<longrightarrow> \<not> is_terminal action"
  shows "emits_only before h role st \<Longrightarrow> fork fh st i idx = Inr (idx', st') \<Longrightarrow>
         emits_only before h role st'"
proof -
  assume q: "emits_only before h role st" and r: "fork fh st i idx = Inr (idx', st')"
  have q1: "emits_only before h role (st\<lparr> ACTION_BUFFER_EMPTY := False \<rparr>)"
    using q by (simp add: emits_only_def)
  from r obtain f where f: "fh = Some f"
    by (cases fh) (simp_all add: fork_def Let_def)
  show ?thesis
  proof (cases "length (f (idx - 1) (st\<lparr> ACTION_BUFFER_EMPTY := False \<rparr>)) > 0")
    case True
    with r f have "emit_all (st\<lparr> ACTION_BUFFER_EMPTY := False \<rparr>)
        (f (idx - 1) (st\<lparr> ACTION_BUFFER_EMPTY := False \<rparr>)) = Inr st'"
      by (auto simp add: fork_def Let_def dest!: and_then_Inr)
    from emit_all_emits_only [OF q1 this] assms f show ?thesis by blast
  next
    case False
    with r f have "st' = st\<lparr> ACTION_BUFFER_EMPTY := False \<rparr>"
      by (simp add: fork_def Let_def)
    with q1 show ?thesis by simp
  qed
qed

lemma read_input_frame:
  "read_input env scan st input_type ptr token put = Inr (v, st') \<Longrightarrow>
   (\<And>t. handler (put t) = handler st \<and> SCANNER (put t) = SCANNER st
          \<and> emitted (put t) = emitted st) \<Longrightarrow>
   handler st' = handler st \<and> SCANNER st' = SCANNER st \<and> emitted st' = emitted st"
  by (auto simp add: read_input_def Let_def split: if_splits dest!: and_then_Inr)

lemma get_input_value_frame:
  "get_input_value env scan st input_type token_transition ptr = Inr (v, st') \<Longrightarrow>
   handler st' = handler st \<and> SCANNER st' = SCANNER st \<and> emitted st' = emitted st"
  by (auto simp add: get_input_value_def Let_def split: if_splits dest!: read_input_frame)

lemma index_jump_frame:
  "index_jump env scan st idx i = Inr (idx', st') \<Longrightarrow>
   handler st' = handler st \<and> SCANNER st' = SCANNER st \<and> emitted st' = emitted st"
  by (auto simp add: index_jump_def Let_def split: if_splits
        dest!: and_then_Inr get_input_value_frame)

lemma hash_jump_frame:
  "hash_jump env scan m st idx i = Inr (idx', st') \<Longrightarrow>
   handler st' = handler st \<and> SCANNER st' = SCANNER st \<and> emitted st' = emitted st"
  by (auto simp add: hash_jump_def Let_def split: if_splits
        dest!: and_then_Inr get_input_value_frame)

lemma scan_to_frame:
  "scan_to env scan m st idx i = Inr (idx', st') \<Longrightarrow>
   handler st' = handler st \<and> SCANNER st' = SCANNER st \<and> emitted st' = emitted st"
  by (auto simp add: scan_to_def Let_def split: if_splits option.splits dest!: and_then_Inr)

lemma exec_loop_emits_only:
  assumes "\<forall>f pointer it action. fh = Some f \<longrightarrow> action \<in> set (f pointer it)
             \<longrightarrow> \<not> is_terminal action"
  shows "emits_only before h role st \<Longrightarrow>
         exec_loop env scan fh n st idx rec fm = Inr (fm', st') \<Longrightarrow>
         emits_only before h role st'"
proof (rule exec_loop_preserves [where Q = "emits_only before h role" and env = env
          and scan = scan and fh = fh])
  fix st :: "'a StateIterator" and i idx
  assume q: "emits_only before h role st"
  show "emits_only before h role (snd (goto st i idx))"
    using q by (simp add: goto_def Let_def emits_only_def)
  show "emits_only before h role (set_production st i)"
    using q by (simp add: set_production_def emits_only_def)
  show "emits_only before h role (push_fail_state env st i)"
    using q by (simp add: push_fail_state_def Let_def emits_only_def)
qed (auto intro: emits_only_consume emits_only_reduce emits_only_set_token
       emits_only_fork [OF assms] emits_only_assert_consume
       dest: scan_to_frame index_jump_frame hash_jump_frame intro: emits_only_frame)


lemma final_action_terminal:
  "if SCANNER st then \<exists>token. final_action env st fm lgs root = TOKEN token
   else final_action env st fm lgs root = ACCEPT
        \<or> (\<exists>l t off len p. final_action env st fm lgs root = ERROR l t off len p)"
  by (simp add: final_action_def Let_def)

lemma start_one_terminal_action:
  assumes ret: "start env scan n st h fh root = Inr st'"
      and fh: "\<forall>f pointer it action. fh = Some f \<longrightarrow> action \<in> set (f pointer it)
                 \<longrightarrow> \<not> is_terminal action"
  shows "\<exists>earlier final.
           emitted st' = emitted st @ earlier @ [final]
           \<and> (\<forall>a \<in> set earlier. \<not> is_terminal a)
           \<and> (if SCANNER st then \<exists>token. final = TOKEN token
               else final = ACCEPT \<or> (\<exists>l t off len p. final = ERROR l t off len p))"
proof -
  let ?Q = "emits_only (emitted st) h (SCANNER st)"
  let ?st1 = "st\<lparr> handler := h \<rparr>"
  let ?st2 = "if SCANNER ?st1
              then ?st1\<lparr> tok0 := (tok0 ?st1)\<lparr> line_number := rd_line_count env (reader ?st1),
                                                line_offset := rd_line_offset env (reader ?st1) \<rparr> \<rparr>
              else ?st1"
  have q2: "?Q ?st2" by (simp add: emits_only_def)
  from ret have run: "start_loop env scan fh root n ?st2 False (- 1) = Inr st'"
    by (simp add: start_def Let_def)
  have "\<exists>st_f fm_f lgs_f. ?Q st_f \<and> emit st_f (final_action env st_f fm_f lgs_f root) = Inr st'"
  proof (rule start_loop_preserves [where Q = ?Q, OF _ _ q2 run])
    fix s :: "'a StateIterator" and idx rec fm fm' s' m
    assume "?Q s" and "exec_loop env scan fh m s idx rec fm = Inr (fm', s')"
    then show "?Q s'" by (rule exec_loop_emits_only [OF fh])
  next
    fix s :: "'a StateIterator"
    assume "?Q s"
    then show "?Q (s\<lparr> stack := snd (pop_state (stack s)) \<rparr>)"
      by (simp add: emits_only_def)
  qed
  then obtain st_f fm_f lgs_f where qf: "?Q st_f"
    and fin: "emit st_f (final_action env st_f fm_f lgs_f root) = Inr st'"
    by blast
  from qf obtain new where new: "emitted st_f = emitted st @ new"
      "\<forall>a \<in> set new. \<not> is_terminal a" "SCANNER st_f = SCANNER st"
    by (auto simp add: emits_only_def)
  from fin have "emitted st' = emitted st_f @ [final_action env st_f fm_f lgs_f root]"
    by (auto dest!: emit_Inr)
  with new(1) have "emitted st' = emitted st @ new @ [final_action env st_f fm_f lgs_f root]"
    by simp
  moreover have "if SCANNER st then \<exists>token. final_action env st_f fm_f lgs_f root = TOKEN token
     else final_action env st_f fm_f lgs_f root = ACCEPT
        \<or> (\<exists>l t off len p. final_action env st_f fm_f lgs_f root = ERROR l t off len p)"
    using final_action_terminal [of st_f env fm_f lgs_f root] new(3) by simp
  ultimately show ?thesis using new(2) by blast
qed

text \<open>
  Claim C1, amended. Whenever a session (\<open>start\<close> on an engine with its scanner)
  returns, the actions it has emitted end with exactly one terminal action, emitted
  last: a \<open>Token\<close> in scanner role, an \<open>Accept\<close> or an \<open>Error\<close> otherwise; no action
  before it is terminal, provided the fork handler replays no terminal action.
\<close>

theorem run_one_terminal_action:
  assumes "run env d n st h fh root = Inr st'"
      and "\<forall>f pointer it action. fh = Some f \<longrightarrow> action \<in> set (f pointer it)
                 \<longrightarrow> \<not> is_terminal action"
  shows "\<exists>earlier final.
           emitted st' = emitted st @ earlier @ [final]
           \<and> (\<forall>a \<in> set earlier. \<not> is_terminal a)
           \<and> (if SCANNER st then \<exists>token. final = TOKEN token
               else final = ACCEPT \<or> (\<exists>l t off len p. final = ERROR l t off len p))"
  using assms unfolding run_def by (rule start_one_terminal_action)

theorem run_one_terminal_action_witness:
  "\<exists>earlier final.
     emitted (projr (run ex_env 0 6 (ex_parser [120, 121] ex_xy_bytecode 0x4000003)
                       CallerHandler None (- 1)))
       = emitted (ex_parser [120, 121] ex_xy_bytecode 0x4000003) @ earlier @ [final]
     \<and> (\<forall>a \<in> set earlier. \<not> is_terminal a)
     \<and> (if SCANNER (ex_parser [120, 121] ex_xy_bytecode 0x4000003)
         then \<exists>token. final = TOKEN token
         else final = ACCEPT \<or> (\<exists>l t off len p. final = ERROR l t off len p))"
proof -
  have "\<not> isl (run ex_env 0 6 (ex_parser [120, 121] ex_xy_bytecode 0x4000003)
                  CallerHandler None (- 1))"
    by code_simp
  then have h1: "run ex_env 0 6 (ex_parser [120, 121] ex_xy_bytecode 0x4000003)
                   CallerHandler None (- 1)
      = Inr (projr (run ex_env 0 6 (ex_parser [120, 121] ex_xy_bytecode 0x4000003)
                      CallerHandler None (- 1)))"
    by simp
  have h2: "\<forall>f pointer (it :: (int list \<times> int) StateIterator) action.
      None = Some f \<longrightarrow> action \<in> set (f pointer it) \<longrightarrow> \<not> is_terminal action"
    by simp
  from run_one_terminal_action [OF h1 h2] show ?thesis .
qed

lemma ex_xy_actions:
  "map_sum id emitted (run ex_env 0 6 (ex_parser [120, 121] ex_xy_bytecode 0x4000003)
                         CallerHandler None (- 1))
   = Inr [SHIFT (KernelToken_new\<lparr> byte_length := 1, codepoint_length := 1 \<rparr>),
          SHIFT (KernelToken_new\<lparr> byte_offset := 1, codepoint_offset := 1,
                                 byte_length := 1, codepoint_length := 1 \<rparr>),
          REDUCE 0 2 (- 1), ACCEPT]"
  by code_simp

lemma consume_parser:
  assumes "\<not> SCANNER st" and "handler st = CallerHandler"
  shows "\<exists>st' skip token. consume env st instruction = Inr st'
           \<and> \<not> SCANNER st' \<and> handler st' = CallerHandler
           \<and> emitted st' = emitted st @ skip @ [SHIFT token]
           \<and> spec_accumulator skip = 0
           \<and> symbol_accumulator st' = symbol_accumulator st + 1"
  using assms
  by (simp add: consume_def emitShift_def emit_def and_then_def Let_def spec_accumulator_def)

lemma loop_block_out_of_fuel:
  "bytecode st = ex_loop_bytecode \<Longrightarrow> \<not> SCANNER st \<Longrightarrow> handler st = CallerHandler \<Longrightarrow>
   exec_loop env scan fh n st 3 rec fm = Inl OutOfFuel
   \<and> exec_loop env scan fh n st 4 rec fm = Inl OutOfFuel"
proof (induction n arbitrary: st)
  case 0
  then show ?case by simp
next
  case (Suc n)
  have w3: "word_at (bytecode st) 3 = 0x10000001" and w4: "word_at (bytecode st) 4 = 0xC0000002"
    using Suc.prems(1) by (simp_all add: ex_loop_bytecode_def word_at_def bc_at_def)
  have op3: "js_and (js_shr 0x10000001 28) 0xF = 1" and op4: "js_and (js_shr 0xC0000002 28) 0xF = 12"
    by (simp_all add: js_and_def js_shr_def to_int32_def)
  have rewind: "repeat 5 0xC0000002 = 3"
    by (simp add: repeat_def js_and_def to_int32_def)
  from consume_parser [OF Suc.prems(2) Suc.prems(3), of env "0x10000001"]
  obtain s where s: "consume env st 0x10000001 = Inr s" "\<not> SCANNER s" "handler s = CallerHandler"
    by blast
  from s(1) have "bytecode s = bytecode st"
    by (auto simp add: consume_def emitShift_def Let_def split: if_splits
          dest!: and_then_Inr emit_Inr)
  with Suc.prems(1) have bs: "bytecode s = ex_loop_bytecode" by simp
  have "exec_loop env scan fh (Suc n) st 3 rec fm = exec_loop env scan fh n s 4 rec fm"
    using s(1) by (simp add: w3 op3 Let_def and_then_def)
  moreover have "exec_loop env scan fh (Suc n) st 4 rec fm = exec_loop env scan fh n st 3 rec fm"
    by (simp add: w4 op4 Let_def rewind)
  ultimately show ?case
    using Suc.IH [OF bs s(2) s(3)] Suc.IH [OF Suc.prems] by simp
qed

text \<open>
  Claim C1, as stated, fails: the engine does not bound its loops. On the image whose
  entry block shifts nothing and repeats, a parse of the input \<open>x\<close> runs out of every
  fuel and every scanner depth: \<open>start\<close> never returns.
\<close>

theorem run_does_not_terminate:
  "\<forall>d n. run ex_env d n (ex_parser [120] ex_loop_bytecode 0x4000003) CallerHandler None (- 1)
           = Inl OutOfFuel"
proof (intro allI)
  fix d n
  let ?st = "ex_parser [120] ex_loop_bytecode 0x4000003"
  show "run ex_env d n ?st CallerHandler None (- 1) = Inl OutOfFuel"
  proof (cases n)
    case 0
    then show ?thesis by (simp add: run_def start_def Let_def)
  next
    case (Suc m)
    let ?st1 = "(?st\<lparr> handler := CallerHandler \<rparr>)\<lparr> stack := snd (pop_state (stack ?st)) \<rparr>"
    have inv: "bytecode ?st1 = ex_loop_bytecode" "\<not> SCANNER ?st1" "handler ?st1 = CallerHandler"
      by (simp_all add: ex_parser_def StateIterator_new_def)
    have idx: "js_and 0x4000003 (state_index_mask ex_env) = 3"
      by (simp add: ex_env_def js_and_def to_int32_def)
    have gate: "js_and 0x4000003 (js_shl (normal_state_mask ex_env) 0) \<noteq> 0"
      by (simp add: ex_env_def js_and_def js_shl_def to_int32_def)
    have top: "fst (pop_state (stack ?st)) = 0x4000003" "\<not> pointer (stack ?st) < 1"
      by (simp_all add: ex_parser_def StateIterator_new_def stack_reset_def push_state_def
            pop_state_def KernelStack_new_def)
    have "instruction_executor ex_env (scanner ex_env d n) None m ?st1 0x4000003 False
            = Inl OutOfFuel"
      unfolding instruction_executor_def idx
      using loop_block_out_of_fuel [OF inv] by simp
    then show ?thesis
      using Suc top gate
      by (simp add: run_def start_def Let_def and_then_def ex_parser_def StateIterator_new_def)
  qed
qed

subsection \<open>The instructions of a run\<close>

lemma exec_loop_step:
  "exec_loop env scan fh (Suc n) st index recover_data fail_mode =
     and_then (exec_step env scan fh n st index recover_data fail_mode)
       (\<lambda>r. case r of
          Continue index' st' \<Rightarrow> exec_loop env scan fh n st' index' recover_data fail_mode
        | Return b st' \<Rightarrow> Inr (b, st'))"
  by (simp add: exec_step_def Let_def and_then_def split: sum.splits prod.splits)

lemma exec_loop_visits_preserves:
  assumes step: "\<And>vs s j m r. Q vs s \<Longrightarrow> exec_step env scan fh m s j rec fm = Inr r \<Longrightarrow>
                   Q (vs @ [(s, j)]) (step_state r)"
  shows "Q vs st \<Longrightarrow> exec_loop env scan fh n st idx rec fm = Inr (fm', st') \<Longrightarrow>
         Q (vs @ exec_visits env scan fh n st idx rec fm) st'"
proof (induction n arbitrary: vs st idx)
  case 0
  then show ?case by simp
next
  case (Suc n)
  from Suc.prems(2) obtain r where r: "exec_step env scan fh n st idx rec fm = Inr r"
    and rest: "(case r of
          Continue index' s \<Rightarrow> exec_loop env scan fh n s index' rec fm
        | Return b s \<Rightarrow> Inr (b, s)) = Inr (fm', st')"
    unfolding exec_loop_step by (auto dest!: and_then_Inr)
  from step [OF Suc.prems(1) r] have q: "Q (vs @ [(st, idx)]) (step_state r)" .
  show ?case
  proof (cases r)
    case (Continue j s)
    with rest have run: "exec_loop env scan fh n s j rec fm = Inr (fm', st')" by simp
    from q Continue have "Q (vs @ [(st, idx)]) s" by simp
    from Suc.IH [OF this run] r Continue show ?thesis by simp
  next
    case (Return b s)
    with rest q r show ?thesis by simp
  qed
qed

lemma start_loop_visits_preserves:
  assumes step: "\<And>vs s j m rec fm r. Q vs s \<Longrightarrow> exec_step env scan fh m s j rec fm = Inr r \<Longrightarrow>
                   Q (vs @ [(s, j)]) (step_state r)"
      and pop: "\<And>vs s. Q vs s \<Longrightarrow> Q vs (s\<lparr> stack := snd (pop_state (stack s)) \<rparr>)"
  shows "Q vs st \<Longrightarrow> start_loop env scan fh root n st fm lgs = Inr st' \<Longrightarrow>
         \<exists>st_f fm_f lgs_f. Q (vs @ start_loop_visits env scan fh n st fm) st_f
            \<and> emit st_f (final_action env st_f fm_f lgs_f root) = Inr st'"
proof (induction n arbitrary: vs st fm lgs)
  case 0
  then show ?case by simp
next
  case (Suc n)
  note q = Suc.prems(1) and run = Suc.prems(2)
  show ?case
  proof (cases "pointer (stack st) < 1")
    case True
    with run q show ?thesis by auto
  next
    case False
    let ?state = "fst (pop_state (stack st))"
    let ?st1 = "st\<lparr> stack := snd (pop_state (stack st)) \<rparr>"
    let ?gate = "js_shl (normal_state_mask env) (if fm then 1 else 0)"
    let ?lgs = "if fm then lgs else ?state"
    have q1: "Q vs ?st1" using q by (rule pop)
    show ?thesis
    proof (cases "?state > 0 \<and> js_and ?state ?gate \<noteq> 0")
      case True
      with run False have "and_then (instruction_executor env scan fh n ?st1 ?state fm)
          (\<lambda>(fail_mode', st2). start_loop env scan fh root n st2 fail_mode' ?lgs) = Inr st'"
        by (simp add: Let_def)
      then obtain fm2 st2 where
        ex: "instruction_executor env scan fh n ?st1 ?state fm = Inr (fm2, st2)"
        and rest: "start_loop env scan fh root n st2 fm2 ?lgs = Inr st'"
        by (auto dest!: and_then_Inr)
      let ?vs1 = "exec_visits env scan fh n ?st1 (js_and ?state (state_index_mask env))
                    (meta_stack (stack ?st1) (pointer (stack ?st1) + 1)) fm"
      from ex have "exec_loop env scan fh n ?st1 (js_and ?state (state_index_mask env))
                      (meta_stack (stack ?st1) (pointer (stack ?st1) + 1)) fm = Inr (fm2, st2)"
        by (simp add: instruction_executor_def)
      from exec_loop_visits_preserves [where Q = Q, OF step q1 this]
      have "Q (vs @ ?vs1) st2" .
      from Suc.IH [OF this rest] obtain st_f fm_f lgs_f where
        "Q ((vs @ ?vs1) @ start_loop_visits env scan fh n st2 fm2) st_f"
        "emit st_f (final_action env st_f fm_f lgs_f root) = Inr st'"
        by blast
      moreover have "start_loop_visits env scan fh (Suc n) st fm
          = ?vs1 @ start_loop_visits env scan fh n st2 fm2"
        using False True ex by (simp add: Let_def)
      ultimately show ?thesis by auto
    next
      case nogate: False
      have "start_loop env scan fh root n ?st1 fm (if ?state > 0 then ?lgs else lgs) = Inr st'"
        using run False nogate by (auto simp add: Let_def split: if_splits)
      from Suc.IH [OF q1 this] obtain st_f fm_f lgs_f where
        "Q (vs @ start_loop_visits env scan fh n ?st1 fm) st_f"
        "emit st_f (final_action env st_f fm_f lgs_f root) = Inr st'"
        by blast
      moreover have "start_loop_visits env scan fh (Suc n) st fm
          = start_loop_visits env scan fh n ?st1 fm"
        using False nogate by (auto simp add: Let_def)
      ultimately show ?thesis by auto
    qed
  qed
qed

lemma exec_step_cases:
  assumes i: "i = word_at (bytecode st) idx" and op: "op = js_and (js_shr i 28) 0xF"
      and run: "exec_step env scan fh m st idx rec fm = Inr r"
      and c1: "\<And>s. op = 1 \<Longrightarrow> consume env st i = Inr s \<Longrightarrow> R s"
      and c2: "op = 2 \<Longrightarrow> R (snd (goto st i (idx + 1)))"
      and c3: "op = 3 \<Longrightarrow> R (set_production st i)"
      and c4: "\<And>j s. op = 4 \<Longrightarrow> reduce st i (idx + 1) rec = Inr (j, s) \<Longrightarrow> R s"
      and c5: "\<And>j s. op = 5 \<Longrightarrow> set_token env st i (idx + 1) = Inr (j, s) \<Longrightarrow> R s"
      and c6: "\<And>j s. op = 6 \<Longrightarrow> fork fh st i (idx + 1) = Inr (j, s) \<Longrightarrow> R s"
      and c7: "\<And>j s. op = 7 \<Longrightarrow> scan_to env scan m st (idx + 1) i = Inr (j, s) \<Longrightarrow> R s"
      and c9: "\<And>j s. op = 8 \<or> op = 9 \<Longrightarrow> index_jump env scan st (idx + 1) i = Inr (j, s) \<Longrightarrow> R s"
      and c10: "\<And>j s. op = 10 \<Longrightarrow> hash_jump env scan m st (idx + 1) i = Inr (j, s) \<Longrightarrow> R s"
      and c11: "op = 11 \<Longrightarrow> R (push_fail_state env st i)"
      and c14: "\<And>j s. op = 14 \<Longrightarrow> assert_consume env st (idx + 1) i = Inr (j, s) \<Longrightarrow> R s"
      and c0: "op \<notin> {1, 2, 3, 4, 5, 6, 7, 8, 9, 10, 11, 14} \<Longrightarrow> R st"
  shows "R (step_state r)"
proof -
  consider "op = 1" | "op = 2" | "op = 3" | "op = 4" | "op = 5" | "op = 6" | "op = 7"
    | "op = 8 \<or> op = 9" | "op = 10" | "op = 11" | "op = 14"
    | "op \<notin> {1, 2, 3, 4, 5, 6, 7, 8, 9, 10, 11, 14}"
    by auto
  then show ?thesis
  proof cases
    case 1
    with run i op show ?thesis
      by (auto simp add: exec_step_def Let_def dest!: and_then_Inr intro: c1)
  next
    case 2
    with run i op c2 show ?thesis
      by (auto simp add: exec_step_def Let_def)
  next
    case 3
    with run i op c3 show ?thesis
      by (auto simp add: exec_step_def Let_def)
  next
    case 4
    with run i op show ?thesis
      by (auto simp add: exec_step_def Let_def dest!: and_then_Inr intro: c4)
  next
    case 5
    with run i op show ?thesis
      by (auto simp add: exec_step_def Let_def dest!: and_then_Inr intro: c5)
  next
    case 6
    with run i op show ?thesis
      by (auto simp add: exec_step_def Let_def dest!: and_then_Inr intro: c6)
  next
    case 7
    with run i op show ?thesis
      by (auto simp add: exec_step_def Let_def dest!: and_then_Inr intro: c7)
  next
    case 8
    with run i op obtain j s where "index_jump env scan st (idx + 1) i = Inr (j, s)"
        "r = Continue j s"
      by (auto simp add: exec_step_def Let_def dest!: and_then_Inr)
    with c9 [OF 8] show ?thesis by simp
  next
    case 9
    with run i op show ?thesis
      by (auto simp add: exec_step_def Let_def dest!: and_then_Inr intro: c10)
  next
    case 10
    with run i op c11 show ?thesis
      by (auto simp add: exec_step_def Let_def)
  next
    case 11
    with run i op show ?thesis
      by (auto simp add: exec_step_def Let_def dest!: and_then_Inr intro: c14)
  next
    case 12
    with run i op c0 show ?thesis
      by (auto simp add: exec_step_def Let_def split: if_splits)
  qed
qed

lemma read_input_result:
  "read_input env scan st input_type ptr token put = Inr (v, st') \<Longrightarrow> \<exists>t. st' = put t"
  by (auto simp add: read_input_def Let_def split: if_splits dest!: and_then_Inr)

lemma get_input_value_parser_frame:
  "get_input_value env scan st input_type token_transition ptr = Inr (v, st') \<Longrightarrow>
   tok0 st' = tok0 st \<and> symbol_accumulator st' = symbol_accumulator st"
  by (auto simp add: get_input_value_def Let_def split: if_splits dest!: read_input_result)

lemma index_jump_parser_frame:
  "index_jump env scan st idx i = Inr (idx', st') \<Longrightarrow>
   tok0 st' = tok0 st \<and> symbol_accumulator st' = symbol_accumulator st"
  by (auto simp add: index_jump_def Let_def split: if_splits
        dest!: and_then_Inr get_input_value_parser_frame)

lemma hash_jump_parser_frame:
  "hash_jump env scan m st idx i = Inr (idx', st') \<Longrightarrow>
   tok0 st' = tok0 st \<and> symbol_accumulator st' = symbol_accumulator st"
  by (auto simp add: hash_jump_def Let_def split: if_splits
        dest!: and_then_Inr get_input_value_parser_frame)

lemma scan_to_parser_frame:
  "scan_to env scan m st idx i = Inr (idx', st') \<Longrightarrow>
   tok0 st' = tok0 st \<and> symbol_accumulator st' = symbol_accumulator st"
  by (auto simp add: scan_to_def Let_def split: if_splits option.splits dest!: and_then_Inr)

lemma emits_only_self: "emits_only (emitted st) (handler st) (SCANNER st) st"
  by (simp add: emits_only_def)

subsection \<open>The symbol accumulator\<close>

lemma accumulator_consume:
  "consume env st i = Inr s \<Longrightarrow> \<not> SCANNER st \<Longrightarrow>
   symbol_accumulator s = symbol_accumulator st + 1 \<and> \<not> SCANNER s"
  by (auto simp add: consume_def emitShift_def Let_def split: if_splits
        dest!: and_then_Inr emit_Inr)

lemma accumulator_reduce:
  "reduce st i idx rec = Inr (j, s) \<Longrightarrow> js_and (js_and i 0xFFFF) 0xFFFF \<noteq> 0xFFFF \<Longrightarrow>
   symbol_accumulator s = symbol_accumulator st - (js_and (js_shr i 16) 0xFFF - 1)
   \<and> SCANNER s = SCANNER st"
  by (auto simp add: reduce_def emitReduce_def Let_def set_production_def split: if_splits
        dest!: and_then_Inr emit_Inr)

lemma accumulator_set_token:
  assumes r: "set_token env st i idx = Inr (j, s)" and ns: "\<not> SCANNER st"
  shows "symbol_accumulator s
           = symbol_accumulator st + (if js_and i 0x01000000 \<noteq> 0 then 1 else 0)
         \<and> \<not> SCANNER s"
proof -
  from r obtain s1 where
    s1: "(if js_and i 0x01000000 \<noteq> 0 then consume env st 0 else Inr st) = Inr s1"
    and s: "symbol_accumulator s = symbol_accumulator s1" "SCANNER s = SCANNER s1"
    by (auto simp add: set_token_def Let_def split: if_splits dest!: and_then_Inr)
  show ?thesis
  proof (cases "js_and i 0x01000000 \<noteq> 0")
    case True
    with s1 have "consume env st 0 = Inr s1" by simp
    from accumulator_consume [OF this ns] s True show ?thesis by simp
  next
    case False
    with s1 s ns show ?thesis by simp
  qed
qed

lemma accumulator_assert_consume:
  assumes r: "assert_consume env st idx i = Inr (j, s)" and ns: "\<not> SCANNER st"
  shows "symbol_accumulator s
           = symbol_accumulator st + (if assert_matches env st i then 1 else 0)
         \<and> \<not> SCANNER s"
proof (cases "assert_matches env st i")
  case True
  with r obtain t where "consume env (st\<lparr> tok1 := t \<rparr>) 0 = Inr s"
    by (auto simp add: assert_consume_def assert_matches_def Let_def split: if_splits
          dest!: and_then_Inr intro: that [of "tok1 st"])
  from accumulator_consume [OF this] ns True show ?thesis by simp
next
  case False
  with r obtain t where "s = st\<lparr> tok1 := t \<rparr>"
    by (auto simp add: assert_consume_def assert_matches_def Let_def split: if_splits)
  with ns False show ?thesis by simp
qed

lemma accumulator_emit_all:
  "emit_all st actions = Inr st' \<Longrightarrow>
   symbol_accumulator st' = symbol_accumulator st \<and> SCANNER st' = SCANNER st"
proof (induction actions arbitrary: st)
  case Nil
  then show ?case by simp
next
  case (Cons a actions)
  from Cons.prems obtain s where s: "emit st a = Inr s" "emit_all s actions = Inr st'"
    by (auto dest!: and_then_Inr)
  from s(1) have "symbol_accumulator s = symbol_accumulator st \<and> SCANNER s = SCANNER st"
    by (auto dest!: emit_Inr)
  with Cons.IH [OF s(2)] show ?case by simp
qed

lemma accumulator_fork:
  "fork fh st i idx = Inr (j, s) \<Longrightarrow>
   symbol_accumulator s = symbol_accumulator st \<and> SCANNER s = SCANNER st"
  by (auto simp add: fork_def Let_def split: option.splits if_splits
        dest!: and_then_Inr accumulator_emit_all)

lemma accumulator_step:
  assumes ns: "\<not> SCANNER st" and fixed: "\<not> dynamic_reduce_at (st, idx)"
      and run: "exec_step env scan fh m st idx rec fm = Inr r"
  shows "symbol_accumulator (step_state r)
           = symbol_accumulator st + consumes_at env (st, idx) - reduce_excess (st, idx)
         \<and> \<not> SCANNER (step_state r)"
proof (rule exec_step_cases [OF refl refl run])
  fix s
  assume op: "js_and (js_shr (word_at (bytecode st) idx) 28) 0xF = 1"
     and r: "consume env st (word_at (bytecode st) idx) = Inr s"
  from op have "consumes_at env (st, idx) = 1" "reduce_excess (st, idx) = 0"
    by (simp_all add: consumes_at_def reduce_excess_def Let_def)
  with accumulator_consume [OF r ns]
  show "symbol_accumulator s
           = symbol_accumulator st + consumes_at env (st, idx) - reduce_excess (st, idx)
         \<and> \<not> SCANNER s"
    by simp
next
  assume op: "js_and (js_shr (word_at (bytecode st) idx) 28) 0xF = 2"
  from op have "consumes_at env (st, idx) = 0" "reduce_excess (st, idx) = 0"
    by (simp_all add: consumes_at_def reduce_excess_def Let_def)
  with ns show "symbol_accumulator (snd (goto st (word_at (bytecode st) idx) (idx + 1)))
           = symbol_accumulator st + consumes_at env (st, idx) - reduce_excess (st, idx)
         \<and> \<not> SCANNER (snd (goto st (word_at (bytecode st) idx) (idx + 1)))"
    by (simp add: goto_def Let_def)
next
  assume op: "js_and (js_shr (word_at (bytecode st) idx) 28) 0xF = 3"
  from op have "consumes_at env (st, idx) = 0" "reduce_excess (st, idx) = 0"
    by (simp_all add: consumes_at_def reduce_excess_def Let_def)
  with ns show "symbol_accumulator (set_production st (word_at (bytecode st) idx))
           = symbol_accumulator st + consumes_at env (st, idx) - reduce_excess (st, idx)
         \<and> \<not> SCANNER (set_production st (word_at (bytecode st) idx))"
    by (simp add: set_production_def)
next
  fix j s
  assume op: "js_and (js_shr (word_at (bytecode st) idx) 28) 0xF = 4"
     and r: "reduce st (word_at (bytecode st) idx) (idx + 1) rec = Inr (j, s)"
  from op have d: "consumes_at env (st, idx) = 0"
      "reduce_excess (st, idx) = js_and (js_shr (word_at (bytecode st) idx) 16) 0xFFF - 1"
    by (simp_all add: consumes_at_def reduce_excess_def Let_def)
  from op fixed have "js_and (js_and (word_at (bytecode st) idx) 0xFFFF) 0xFFFF \<noteq> 0xFFFF"
    by (simp add: dynamic_reduce_at_def Let_def)
  from accumulator_reduce [OF r this] d ns
  show "symbol_accumulator s
           = symbol_accumulator st + consumes_at env (st, idx) - reduce_excess (st, idx)
         \<and> \<not> SCANNER s"
    by simp
next
  fix j s
  assume op: "js_and (js_shr (word_at (bytecode st) idx) 28) 0xF = 5"
     and r: "set_token env st (word_at (bytecode st) idx) (idx + 1) = Inr (j, s)"
  from op have "consumes_at env (st, idx)
        = (if js_and (word_at (bytecode st) idx) 0x01000000 \<noteq> 0 then 1 else 0)"
      "reduce_excess (st, idx) = 0"
    by (simp_all add: consumes_at_def reduce_excess_def Let_def)
  with accumulator_set_token [OF r ns]
  show "symbol_accumulator s
           = symbol_accumulator st + consumes_at env (st, idx) - reduce_excess (st, idx)
         \<and> \<not> SCANNER s"
    by simp
next
  fix j s
  assume op: "js_and (js_shr (word_at (bytecode st) idx) 28) 0xF = 6"
     and r: "fork fh st (word_at (bytecode st) idx) (idx + 1) = Inr (j, s)"
  from op have "consumes_at env (st, idx) = 0" "reduce_excess (st, idx) = 0"
    by (simp_all add: consumes_at_def reduce_excess_def Let_def)
  with accumulator_fork [OF r] ns
  show "symbol_accumulator s
           = symbol_accumulator st + consumes_at env (st, idx) - reduce_excess (st, idx)
         \<and> \<not> SCANNER s"
    by simp
next
  fix j s
  assume op: "js_and (js_shr (word_at (bytecode st) idx) 28) 0xF = 7"
     and r: "scan_to env scan m st (idx + 1) (word_at (bytecode st) idx) = Inr (j, s)"
  from op have "consumes_at env (st, idx) = 0" "reduce_excess (st, idx) = 0"
    by (simp_all add: consumes_at_def reduce_excess_def Let_def)
  with scan_to_parser_frame [OF r] scan_to_frame [OF r] ns
  show "symbol_accumulator s
           = symbol_accumulator st + consumes_at env (st, idx) - reduce_excess (st, idx)
         \<and> \<not> SCANNER s"
    by simp
next
  fix j s
  assume op: "js_and (js_shr (word_at (bytecode st) idx) 28) 0xF = 8
              \<or> js_and (js_shr (word_at (bytecode st) idx) 28) 0xF = 9"
     and r: "index_jump env scan st (idx + 1) (word_at (bytecode st) idx) = Inr (j, s)"
  from op have "consumes_at env (st, idx) = 0" "reduce_excess (st, idx) = 0"
    by (auto simp add: consumes_at_def reduce_excess_def Let_def)
  with index_jump_parser_frame [OF r] index_jump_frame [OF r] ns
  show "symbol_accumulator s
           = symbol_accumulator st + consumes_at env (st, idx) - reduce_excess (st, idx)
         \<and> \<not> SCANNER s"
    by simp
next
  fix j s
  assume op: "js_and (js_shr (word_at (bytecode st) idx) 28) 0xF = 10"
     and r: "hash_jump env scan m st (idx + 1) (word_at (bytecode st) idx) = Inr (j, s)"
  from op have "consumes_at env (st, idx) = 0" "reduce_excess (st, idx) = 0"
    by (simp_all add: consumes_at_def reduce_excess_def Let_def)
  with hash_jump_parser_frame [OF r] hash_jump_frame [OF r] ns
  show "symbol_accumulator s
           = symbol_accumulator st + consumes_at env (st, idx) - reduce_excess (st, idx)
         \<and> \<not> SCANNER s"
    by simp
next
  assume op: "js_and (js_shr (word_at (bytecode st) idx) 28) 0xF = 11"
  from op have "consumes_at env (st, idx) = 0" "reduce_excess (st, idx) = 0"
    by (simp_all add: consumes_at_def reduce_excess_def Let_def)
  with ns show "symbol_accumulator (push_fail_state env st (word_at (bytecode st) idx))
           = symbol_accumulator st + consumes_at env (st, idx) - reduce_excess (st, idx)
         \<and> \<not> SCANNER (push_fail_state env st (word_at (bytecode st) idx))"
    by (simp add: push_fail_state_def Let_def)
next
  fix j s
  assume op: "js_and (js_shr (word_at (bytecode st) idx) 28) 0xF = 14"
     and r: "assert_consume env st (idx + 1) (word_at (bytecode st) idx) = Inr (j, s)"
  from op have "consumes_at env (st, idx)
        = (if assert_matches env st (word_at (bytecode st) idx) then 1 else 0)"
      "reduce_excess (st, idx) = 0"
    by (simp_all add: consumes_at_def reduce_excess_def Let_def)
  with accumulator_assert_consume [OF r ns]
  show "symbol_accumulator s
           = symbol_accumulator st + consumes_at env (st, idx) - reduce_excess (st, idx)
         \<and> \<not> SCANNER s"
    by simp
next
  assume op: "js_and (js_shr (word_at (bytecode st) idx) 28) 0xF
                \<notin> {1, 2, 3, 4, 5, 6, 7, 8, 9, 10, 11, 14}"
  from op have "consumes_at env (st, idx) = 0" "reduce_excess (st, idx) = 0"
    by (simp_all add: consumes_at_def reduce_excess_def Let_def)
  with ns show "symbol_accumulator st
           = symbol_accumulator st + consumes_at env (st, idx) - reduce_excess (st, idx)
         \<and> \<not> SCANNER st"
    by simp
qed

lemma exec_step_role:
  assumes run: "exec_step env scan fh m st idx rec fm = Inr r"
  shows "SCANNER (step_state r) = SCANNER st"
proof (rule exec_step_cases [OF refl refl run])
  fix s
  assume "consume env st (word_at (bytecode st) idx) = Inr s"
  from emits_only_consume [OF emits_only_self this] show "SCANNER s = SCANNER st"
    by (simp add: emits_only_def)
next
  fix j s
  assume "reduce st (word_at (bytecode st) idx) (idx + 1) rec = Inr (j, s)"
  from emits_only_reduce [OF emits_only_self this] show "SCANNER s = SCANNER st"
    by (simp add: emits_only_def)
next
  fix j s
  assume "set_token env st (word_at (bytecode st) idx) (idx + 1) = Inr (j, s)"
  from emits_only_set_token [OF emits_only_self this] show "SCANNER s = SCANNER st"
    by (simp add: emits_only_def)
next
  fix j s
  assume "assert_consume env st (idx + 1) (word_at (bytecode st) idx) = Inr (j, s)"
  from emits_only_assert_consume [OF emits_only_self this] show "SCANNER s = SCANNER st"
    by (simp add: emits_only_def)
next
  fix j s
  assume "fork fh st (word_at (bytecode st) idx) (idx + 1) = Inr (j, s)"
  from accumulator_fork [OF this] show "SCANNER s = SCANNER st" by simp
next
  fix j s
  assume "scan_to env scan m st (idx + 1) (word_at (bytecode st) idx) = Inr (j, s)"
  from scan_to_frame [OF this] show "SCANNER s = SCANNER st" by simp
next
  fix j s
  assume "index_jump env scan st (idx + 1) (word_at (bytecode st) idx) = Inr (j, s)"
  from index_jump_frame [OF this] show "SCANNER s = SCANNER st" by simp
next
  fix j s
  assume "hash_jump env scan m st (idx + 1) (word_at (bytecode st) idx) = Inr (j, s)"
  from hash_jump_frame [OF this] show "SCANNER s = SCANNER st" by simp
qed (simp_all add: goto_def Let_def set_production_def push_fail_state_def)

lemma state_at_snoc: "state_at (vs @ [v]) final = state_at vs (fst v)"
  by (cases vs) (simp_all add: state_at_def)

lemma start_accumulator:
  assumes ns: "\<not> SCANNER st"
      and ret: "start env scan n st h fh root = Inr st'"
      and split: "start_loop_visits env scan fh n (st\<lparr> handler := h \<rparr>) False
                    = before @ events @ after"
      and fixed: "\<forall>v \<in> set events. \<not> dynamic_reduce_at v"
  shows "symbol_accumulator (state_at after st')
           = symbol_accumulator (state_at (events @ after) st')
               + sum_list (map (consumes_at env) events) - sum_list (map reduce_excess events)"
proof -
  let ?st1 = "st\<lparr> handler := h \<rparr>"
  let ?d = "\<lambda>vs. sum_list (map (consumes_at env) vs) - sum_list (map reduce_excess vs)"
  let ?Q = "\<lambda>vs x. \<not> SCANNER x
     \<and> (\<forall>before events after. vs = before @ events @ after \<longrightarrow>
          (\<forall>v \<in> set events. \<not> dynamic_reduce_at v) \<longrightarrow>
          symbol_accumulator (state_at after x)
            = symbol_accumulator (state_at (events @ after) x) + ?d events)"
  have q2: "?Q [] ?st1" using ns by simp
  from ret ns have run: "start_loop env scan fh root n ?st1 False (- 1) = Inr st'"
    by (simp add: start_def Let_def)
  have "\<exists>st_f fm_f lgs_f. ?Q ([] @ start_loop_visits env scan fh n ?st1 False) st_f
          \<and> emit st_f (final_action env st_f fm_f lgs_f root) = Inr st'"
  proof (rule start_loop_visits_preserves [where Q = ?Q, OF _ _ q2 run])
    fix vs :: "('a StateIterator \<times> int) list" and x :: "'a StateIterator" and j m rec fm r
    assume a: "?Q vs x" and e: "exec_step env scan fh m x j rec fm = Inr r"
    from a have nx: "\<not> SCANNER x" by simp
    from exec_step_role [OF e] nx have role: "\<not> SCANNER (step_state r)" by simp
    have "\<forall>before events after. vs @ [(x, j)] = before @ events @ after \<longrightarrow>
          (\<forall>v \<in> set events. \<not> dynamic_reduce_at v) \<longrightarrow>
          symbol_accumulator (state_at after (step_state r))
            = symbol_accumulator (state_at (events @ after) (step_state r)) + ?d events"
    proof (intro allI impI)
      fix before events after
      assume sp: "vs @ [(x, j)] = before @ events @ after"
         and fx: "\<forall>v \<in> set events. \<not> dynamic_reduce_at v"
      show "symbol_accumulator (state_at after (step_state r))
            = symbol_accumulator (state_at (events @ after) (step_state r)) + ?d events"
      proof (cases after rule: rev_cases)
        case Nil
        show ?thesis
        proof (cases events rule: rev_cases)
          case Nil
          then show ?thesis by simp
        next
          case (snoc events' y)
          with sp \<open>after = []\<close> have y: "y = (x, j)" and vs: "vs = before @ events' @ []"
            by simp_all
          from fx snoc y have fx1: "\<forall>v \<in> set events'. \<not> dynamic_reduce_at v"
            and fx2: "\<not> dynamic_reduce_at (x, j)" by simp_all
          from a vs fx1 have "symbol_accumulator (state_at [] x)
              = symbol_accumulator (state_at (events' @ []) x) + ?d events'"
            by blast
          then have "symbol_accumulator x = symbol_accumulator (state_at events' x) + ?d events'"
            by (simp add: state_at_def)
          with accumulator_step [OF nx fx2 e] snoc y \<open>after = []\<close> show ?thesis
            by (simp add: state_at_snoc) (simp add: state_at_def)
        qed
      next
        case (snoc after' y)
        with sp have y: "y = (x, j)" and vs: "vs = before @ events @ after'" by simp_all
        from a vs fx have "symbol_accumulator (state_at after' x)
            = symbol_accumulator (state_at (events @ after') x) + ?d events"
          by blast
        with snoc y show ?thesis
          using state_at_snoc [of after' "(x, j)" "step_state r"]
            state_at_snoc [of "events @ after'" "(x, j)" "step_state r"]
          by simp
      qed
    qed
    with role show "?Q (vs @ [(x, j)]) (step_state r)" by blast
  next
    fix vs :: "('a StateIterator \<times> int) list" and x :: "'a StateIterator"
    assume a: "?Q vs x"
    have "\<And>ws. symbol_accumulator (state_at ws (x\<lparr> stack := snd (pop_state (stack x)) \<rparr>))
             = symbol_accumulator (state_at ws x)"
      by (simp add: state_at_def split: list.splits)
    with a show "?Q vs (x\<lparr> stack := snd (pop_state (stack x)) \<rparr>)" by simp
  qed
  then obtain st_f fm_f lgs_f where
    qf: "?Q (start_loop_visits env scan fh n ?st1 False) st_f"
    and fin: "emit st_f (final_action env st_f fm_f lgs_f root) = Inr st'"
    by auto
  from qf split fixed
  have "symbol_accumulator (state_at after st_f)
          = symbol_accumulator (state_at (events @ after) st_f) + ?d events"
    by blast
  moreover from fin have "\<And>ws. symbol_accumulator (state_at ws st')
      = symbol_accumulator (state_at ws st_f)"
    by (auto simp add: state_at_def split: list.splits dest!: emit_Inr)
  ultimately show ?thesis by simp
qed

lemma goto_saves_accumulator:
  "meta_stack (stack (snd (goto st instruction index)))
     (pointer (stack (snd (goto st instruction index)))) = symbol_accumulator st
   \<and> symbol_accumulator (snd (goto st instruction index)) = symbol_accumulator st"
proof -
  have "meta_stack (push_state (stack st) instruction (symbol_accumulator st))
          (pointer (push_state (stack st) instruction (symbol_accumulator st)))
        = symbol_accumulator st"
    by (simp add: push_state_def)
  from goto_chain_top_meta [OF this, of "bytecode st" index]
  show ?thesis
    by (simp add: goto_def Let_def)
qed

text \<open>
  Claim C4, as stated, fails in two ways. First, \<open>GOTO\<close> does not reset the
  accumulator. The block at word 3 of \<open>ex_goto_bytecode\<close> consumes, executes a \<open>GOTO\<close>
  and consumes again, and the block the \<open>GOTO\<close> pushed reduces two symbols: behind the
  last \<open>GOTO\<close> the run makes one consume and one reduce of length 2, for which the
  claim gives \<open>1 - (2 - 1) = 0\<close>, but the accumulator ends at 1. Second, a \<open>REDUCE\<close>
  in the dynamic encoding leaves the accumulator as it is: after two consumes and a
  dynamic reduce, which emits length 2, the accumulator is 2 and not \<open>2 - (2 - 1)\<close>.
\<close>

theorem accumulator_counterexample:
  "\<not> isl ex_goto_run
   \<and> map snd ex_goto_visits = [3, 4, 5, 6, 7, 8]
   \<and> map snd (since_last_goto ex_goto_visits) = [5, 6, 7, 8]
   \<and> sum_list (map (consumes_at ex_env) (since_last_goto ex_goto_visits))
       - sum_list (map reduce_excess (since_last_goto ex_goto_visits)) = 0
   \<and> symbol_accumulator (projr ex_goto_run) = 1
   \<and> \<not> isl ex_dynamic_run
   \<and> emitted (projr ex_dynamic_run)
       = [SHIFT KernelToken_new, SHIFT KernelToken_new, REDUCE 1 2 (- 1), ACCEPT]
   \<and> spec_accumulator (emitted (projr ex_dynamic_run)) = 1
   \<and> symbol_accumulator (projr ex_dynamic_run) = 2"
  by code_simp

text \<open>
  Claim C4, amended. In parser role, over any part \<open>events\<close> of the instructions a
  session executes that holds no \<open>REDUCE\<close> in the dynamic encoding, the symbol
  accumulator changes by the number of consumes minus the sum of \<open>length - 1\<close> over
  the reduces: its value behind the part is its value before the part, plus
  \<open>consumes_at\<close> and minus \<open>reduce_excess\<close> summed over the instructions of the part.
  Every other instruction counts 0, so the accumulator is changed only by a consume (+1)
  and by a fixed-length reduce (\<open>-(length - 1)\<close>). A \<open>GOTO\<close> in particular leaves it
  unchanged and saves it: the entry the \<open>GOTO\<close> leaves on top of the stack holds the
  accumulator as its snapshot.
\<close>

theorem accumulator_counts_events:
  assumes "\<not> SCANNER st"
      and "run env d n st h fh root = Inr st'"
      and "run_visits env d n st h fh = before @ events @ after"
      and "\<forall>v \<in> set events. \<not> dynamic_reduce_at v"
  shows "symbol_accumulator (state_at after st')
           = symbol_accumulator (state_at (events @ after) st')
               + sum_list (map (consumes_at env) events) - sum_list (map reduce_excess events)
     \<and> (\<forall>v \<in> set events. goto_at v \<longrightarrow> goto_snapshot v = symbol_accumulator (fst v))"
proof -
  from assms(2) have ret: "start env (scanner env d n) n st h fh root = Inr st'"
    by (simp add: run_def)
  from assms(3) assms(1)
  have split: "start_loop_visits env (scanner env d n) fh n (st\<lparr> handler := h \<rparr>) False
                 = before @ events @ after"
    by (simp add: run_visits_def Let_def)
  from start_accumulator [OF assms(1) ret split assms(4)]
  show ?thesis by (simp add: goto_snapshot_def Let_def goto_saves_accumulator)
qed

theorem accumulator_counts_events_witness:
  "symbol_accumulator (projr ex_goto_run)
     = symbol_accumulator (state_at (drop 1 ex_goto_visits) (projr ex_goto_run))
       + sum_list (map (consumes_at ex_env) (drop 1 ex_goto_visits))
       - sum_list (map reduce_excess (drop 1 ex_goto_visits))
   \<and> goto_at (ex_goto_visits ! 1)
   \<and> goto_snapshot (ex_goto_visits ! 1) = symbol_accumulator (fst (ex_goto_visits ! 1))"
proof -
  have h1: "\<not> SCANNER (ex_parser [] ex_goto_bytecode 0x4000003)"
    by (simp add: ex_parser_def StateIterator_new_def)
  have "\<not> isl ex_goto_run" by code_simp
  then have h2: "run ex_env 0 8 (ex_parser [] ex_goto_bytecode 0x4000003) CallerHandler None (- 1)
                   = Inr (projr ex_goto_run)"
    by (simp add: ex_goto_run_def)
  have h3: "run_visits ex_env 0 8 (ex_parser [] ex_goto_bytecode 0x4000003) CallerHandler None
      = take 1 ex_goto_visits @ drop 1 ex_goto_visits @ []"
    by (simp add: ex_goto_visits_def [symmetric])
  have h4: "\<forall>v \<in> set (drop 1 ex_goto_visits). \<not> dynamic_reduce_at v"
    by code_simp
  have h5: "ex_goto_visits ! 1 \<in> set (drop 1 ex_goto_visits)"
  proof -
    have "1 < length ex_goto_visits" by code_simp
    then have "drop 1 ex_goto_visits = ex_goto_visits ! 1 # drop (Suc 1) ex_goto_visits"
      by (rule Cons_nth_drop_Suc [symmetric])
    then show ?thesis by simp
  qed
  have h6: "goto_at (ex_goto_visits ! 1)" by code_simp
  from accumulator_counts_events [OF h1 h2 h3 h4] h5 h6 show ?thesis
    by (simp add: state_at_def)
qed

subsection \<open>Shift and Skip\<close>

lemma shift_offsets_append:
  "shift_offsets (xs @ ys) = shift_offsets xs @ shift_offsets ys"
  by (induction xs rule: shift_offsets.induct) simp_all

lemma in_order_emit_other:
  "in_order st \<Longrightarrow> emit st a = Inr st' \<Longrightarrow> shift_offsets [a] = [] \<Longrightarrow> in_order st'"
  by (auto simp add: in_order_def shift_offsets_append dest!: emit_Inr)

lemma in_order_consume:
  assumes q: "in_order st" and r: "consume env st i = Inr st'"
  shows "in_order st'"
proof -
  let ?token = "if js_and i 1 \<noteq> 0
                then (tok1 st)\<lparr> codepoint_length := 0, byte_length := 0 \<rparr> else tok1 st"
  have tk: "0 \<le> byte_length ?token" "byte_offset ?token = byte_offset (tok1 st)"
    using q by (auto simp add: in_order_def)
  show ?thesis
  proof (cases "SCANNER st")
    case True
    with r have "st' = st\<lparr> tok1 := ?token \<rparr>\<lparr> reader := rd_next env (reader st) (byte_length ?token),
                     tok1 := advance_token ?token \<rparr>"
      by (simp add: consume_def Let_def)
    then show ?thesis
      using q tk by (auto simp add: in_order_def advance_token_def)
  next
    case False
    with r obtain s where s: "emitShift (st\<lparr> tok1 := ?token \<rparr>) = Inr s"
      and st': "st' = s\<lparr> reader := rd_next env (reader s) (byte_length ?token),
                       tok1 := advance_token ?token, tok0 := advance_token ?token \<rparr>"
      by (auto simp add: consume_def Let_def dest!: and_then_Inr)
    from s obtain skip where em: "emitted s = emitted st @ skip @ [SHIFT ?token]"
        "shift_offsets skip = []" "peeks s = peeks st"
      by (auto simp add: emitShift_def Let_def split: if_splits dest!: and_then_Inr emit_Inr)
    have "shift_offsets (emitted s) = shift_offsets (emitted st) @ [byte_offset (tok1 st)]"
      using em tk(2) by (simp add: shift_offsets_append)
    then show ?thesis
      using q tk st' em(3)
      by (auto simp add: in_order_def advance_token_def sorted_append)
  qed
qed


lemma js_and_nonneg: "0 \<le> m \<Longrightarrow> m < 2 ^ 31 \<Longrightarrow> 0 \<le> js_and x m"
proof -
  assume "0 \<le> m" "m < 2 ^ 31"
  then have "signed_take_bit 31 m = m"
    by (simp add: signed_take_bit_int_eq_self)
  with \<open>0 \<le> m\<close> show ?thesis
    by (simp add: js_and_def to_int32_def)
qed

lemma in_order_reduce:
  "in_order st \<Longrightarrow> reduce st i idx rec = Inr (idx', st') \<Longrightarrow> in_order st'"
  by (auto simp add: reduce_def emitReduce_def Let_def in_order_def set_production_def
        shift_offsets_append split: if_splits dest!: and_then_Inr emit_Inr)

lemma in_order_set_token:
  assumes q: "in_order st" and r: "set_token env st i idx = Inr (idx', st')"
  shows "in_order st'"
proof -
  from r obtain s where
    s: "(if js_and i 0x01000000 \<noteq> 0 then consume env st 0 else Inr st) = Inr s"
    and st': "st' = (if js_and i 0x08000000 \<noteq> 0 then
                s\<lparr> production_id := js_and i 0xFFFFFF,
                   tok0 := (tok0 s)\<lparr>
                     tk_type := js_and i 0xFFFFFF,
                     byte_length := byte_offset (tok1 s) - byte_offset (tok0 s),
                     codepoint_length := codepoint_offset (tok1 s) - codepoint_offset (tok0 s) \<rparr> \<rparr>
              else s\<lparr> tok1 := (tok1 s)\<lparr> codepoint_length := js_and i 0xFFFFFF,
                                      byte_length := js_and i 0xFFFFFF \<rparr> \<rparr>)"
    by (auto simp add: set_token_def Let_def split: if_splits dest!: and_then_Inr)
  from s q have qs: "in_order s"
    by (auto split: if_splits intro: in_order_consume)
  have "0 \<le> js_and i 0xFFFFFF" by (rule js_and_nonneg) simp_all
  with qs st' show ?thesis
    by (auto simp add: in_order_def)
qed

lemma in_order_assert_consume:
  assumes ok: "reader_ok env" and q: "in_order st"
      and r: "assert_consume env st idx i = Inr (idx', st')"
  shows "in_order st'"
proof -
  have len: "0 \<le> rd_codepoint_byte_length env (reader st)"
    using ok by (simp add: reader_ok_def)
  have u1: "in_order (st\<lparr> tok1 := (tok1 st)\<lparr> byte_length := 1, codepoint_length := 1 \<rparr> \<rparr>)"
    using q by (simp add: in_order_def)
  have u2: "in_order (st\<lparr> tok1 := (tok1 st)\<lparr>
              byte_length := rd_codepoint_byte_length env (reader st),
              codepoint_length := rd_codepoint_length env (reader st) \<rparr> \<rparr>)"
    using q len by (simp add: in_order_def)
  from r show ?thesis
    by (auto simp add: assert_consume_def Let_def split: if_splits
          dest!: and_then_Inr
          intro: in_order_consume [OF u1] in_order_consume [OF u2] in_order_consume [OF q] u1 u2)
qed

lemma in_order_emit_all:
  "in_order st \<Longrightarrow> emit_all st actions = Inr st' \<Longrightarrow> shift_offsets actions = [] \<Longrightarrow>
   in_order st'"
proof (induction actions arbitrary: st)
  case Nil
  then show ?case by simp
next
  case (Cons a actions)
  from Cons.prems(2) obtain s where s: "emit st a = Inr s" "emit_all s actions = Inr st'"
    by (auto dest!: and_then_Inr)
  from Cons.prems(3) have sh: "shift_offsets [a] = []" "shift_offsets actions = []"
    by (cases a; simp)+
  from Cons.prems(1) s(1) sh(1) have "in_order s" by (rule in_order_emit_other)
  from Cons.IH [OF this s(2) sh(2)] show ?case .
qed

lemma in_order_fork:
  assumes "\<forall>f pointer it. fh = Some f \<longrightarrow> shift_offsets (f pointer it) = []"
  shows "in_order st \<Longrightarrow> fork fh st i idx = Inr (idx', st') \<Longrightarrow> in_order st'"
proof -
  assume q: "in_order st" and r: "fork fh st i idx = Inr (idx', st')"
  have q1: "in_order (st\<lparr> ACTION_BUFFER_EMPTY := False \<rparr>)"
    using q by (simp add: in_order_def)
  from r obtain f where f: "fh = Some f"
    by (cases fh) (simp_all add: fork_def Let_def)
  show ?thesis
  proof (cases "length (f (idx - 1) (st\<lparr> ACTION_BUFFER_EMPTY := False \<rparr>)) > 0")
    case True
    with r f have "emit_all (st\<lparr> ACTION_BUFFER_EMPTY := False \<rparr>)
        (f (idx - 1) (st\<lparr> ACTION_BUFFER_EMPTY := False \<rparr>)) = Inr st'"
      by (auto simp add: fork_def Let_def dest!: and_then_Inr)
    from in_order_emit_all [OF q1 this] assms f show ?thesis by blast
  next
    case False
    with r f have "st' = st\<lparr> ACTION_BUFFER_EMPTY := False \<rparr>"
      by (simp add: fork_def Let_def)
    with q1 show ?thesis by simp
  qed
qed

lemma scan_to_loop_order:
  assumes ok: "scan_ok scan"
  shows "0 \<le> byte_length temp \<Longrightarrow>
         scan_to_loop env scan r bc si first lim n temp = Inr (Some t) \<Longrightarrow>
         byte_offset temp \<le> byte_offset t \<and> 0 \<le> byte_length t"
proof (induction n arbitrary: temp)
  case 0
  then show ?case by simp
next
  case (Suc n)
  from Suc.prems(2) obtain token where tok: "scan r bc temp si = Inr token"
    and rest: "(if type_in_targets bc first lim (tk_type token) then Inr (Some token)
                else if rd_offset_at_end env r (byte_offset token) then Inr None
                else scan_to_loop env scan r bc si first lim n (scan_to_advance token))
               = Inr (Some t)"
    by (auto dest!: and_then_Inr)
  from ok Suc.prems(1) tok have mono: "byte_offset temp \<le> byte_offset token"
      "0 \<le> byte_length token"
    by (auto simp add: scan_ok_def)
  show ?case
  proof (cases "type_in_targets bc first lim (tk_type token)")
    case True
    with rest mono show ?thesis by simp
  next
    case False
    with rest have run: "scan_to_loop env scan r bc si first lim n (scan_to_advance token)
        = Inr (Some t)"
      by (auto split: if_splits)
    have adv: "0 \<le> byte_length (scan_to_advance token)"
        "byte_offset token \<le> byte_offset (scan_to_advance token)"
      using mono by (auto simp add: scan_to_advance_def)
    from Suc.IH [OF adv(1) run] adv(2) mono(1) show ?thesis by simp
  qed
qed

lemma in_order_scan_to:
  assumes ok: "scan_ok scan" and q: "in_order st"
      and r: "scan_to env scan m st idx i = Inr (idx', st')"
  shows "in_order st'"
proof -
  let ?temp = "if js_and i 0x00100000 > 0
               then (tok1 st)\<lparr> tk_type := 0,
                      byte_offset := byte_offset (tok0 st),
                      codepoint_offset := codepoint_offset (tok0 st),
                      byte_length := 0, codepoint_length := 0 \<rparr>
               else (tok1 st)\<lparr> tk_type := 0 \<rparr>"
  from r obtain found where
    lp: "scan_to_loop env scan (reader st) (bytecode st) (word_at (bytecode st) idx)
           (idx + 1) (idx + 1 + js_and i 0xFFFF) m ?temp = Inr found"
    and st': "st' = (case found of None \<Rightarrow> st
                     | Some t \<Rightarrow> if js_and i 0x00100000 > 0 then st else st\<lparr> tok1 := t \<rparr>)"
    by (auto simp add: scan_to_def Let_def split: option.splits dest!: and_then_Inr)
  show ?thesis
  proof (cases found)
    case None
    with st' q show ?thesis by simp
  next
    case (Some t)
    show ?thesis
    proof (cases "js_and i 0x00100000 > 0")
      case True
      with st' Some q show ?thesis by simp
    next
      case False
      have "0 \<le> byte_length ?temp" using q False by (simp add: in_order_def)
      from scan_to_loop_order [OF ok this] lp Some False
      have "byte_offset (tok1 st) \<le> byte_offset t \<and> 0 \<le> byte_length t"
        by auto
      with st' Some False q show ?thesis
        by (auto simp add: in_order_def)
    qed
  qed
qed


lemma read_input_order:
  assumes ok: "scan_ok scan" and rd: "reader_ok env"
      and len: "0 \<le> byte_length token"
      and r: "read_input env scan st input_type ptr token put = Inr (v, st')"
      and put: "\<And>t. byte_offset token \<le> byte_offset t \<Longrightarrow> 0 \<le> byte_length t
                  \<Longrightarrow> in_order (put t)"
  shows "in_order st'"
proof -
  have cl: "0 \<le> rd_codepoint_byte_length env (reader st)"
    using rd by (simp add: reader_ok_def)
  show ?thesis
  proof (cases "input_type = 1")
    case True
    with r obtain t where t: "scan (reader st) (bytecode st) token ptr = Inr t" "st' = put t"
      by (auto simp add: read_input_def Let_def dest!: and_then_Inr)
    from ok len t(1) have "byte_offset token \<le> byte_offset t \<and> 0 \<le> byte_length t"
      by (auto simp add: scan_ok_def)
    with t(2) put show ?thesis by simp
  next
    case False
    with r have "st' = put token
        \<or> st' = put (token\<lparr> byte_length := rd_codepoint_byte_length env (reader st),
                             codepoint_length := rd_codepoint_length env (reader st) \<rparr>)
        \<or> st' = put (token\<lparr> byte_length := 1, codepoint_length := 1 \<rparr>)"
      by (auto simp add: read_input_def Let_def split: if_splits)
    with len cl put show ?thesis by auto
  qed
qed

lemma in_order_get_input_value:
  assumes ok: "scan_ok scan" and rd: "reader_ok env" and q: "in_order st"
      and r: "get_input_value env scan st input_type token_transition ptr = Inr (v, st')"
  shows "in_order st'"
proof (cases "input_type > 0")
  case False
  with r q show ?thesis by (simp add: get_input_value_def)
next
  case pos: True
  show ?thesis
  proof (cases "token_transition = 1")
    case True
    let ?token = "if peeks st = [] then tok1 st else last (peeks st)"
    let ?st1 = "st\<lparr> reader := rd_next env (reader st) (byte_length ?token) \<rparr>"
    have q1: "in_order ?st1" using q by (simp add: in_order_def)
    have tl: "0 \<le> byte_length ?token"
      using q by (auto simp add: in_order_def)
    show ?thesis
    proof (cases "rd_END env (reader ?st1)")
      case True
      with r pos \<open>token_transition = 1\<close> q1 show ?thesis
        by (simp add: get_input_value_def Let_def)
    next
      case False
      with r pos \<open>token_transition = 1\<close>
      have ri: "read_input env scan ?st1 input_type ptr
                  (?token\<lparr> tk_type := 0, byte_offset := byte_offset ?token + byte_length ?token \<rparr>)
                  (\<lambda>t. ?st1\<lparr> peeks := peeks ?st1 @ [t] \<rparr>) = Inr (v, st')"
        by (simp add: get_input_value_def Let_def)
      show ?thesis
      proof (rule read_input_order [OF ok rd _ ri])
        show "0 \<le> byte_length (?token\<lparr> tk_type := 0,
                 byte_offset := byte_offset ?token + byte_length ?token \<rparr>)"
          using tl by simp
      next
        fix t :: KernelToken
        assume "0 \<le> byte_length t"
        then show "in_order (?st1\<lparr> peeks := peeks ?st1 @ [t] \<rparr>)"
          using q by (simp add: in_order_def)
      qed
    qed
  next
    case prim: False
    have put1: "\<And>s t. in_order s \<Longrightarrow> byte_offset (tok1 s) \<le> byte_offset t
                  \<Longrightarrow> 0 \<le> byte_length t \<Longrightarrow> in_order (s\<lparr> tok1 := t \<rparr>)"
      by (auto simp add: in_order_def)
    show ?thesis
    proof (cases "rd_END env (reader st)")
      case True
      with r pos prim q show ?thesis by (simp add: get_input_value_def)
    next
      case notend: False
      show ?thesis
      proof (cases "peeks st = []")
        case True
        with r pos prim notend
        have ri: "read_input env scan st input_type ptr (tok1 st) (\<lambda>t. st\<lparr> tok1 := t \<rparr>)
                    = Inr (v, st')"
          by (simp add: get_input_value_def)
        show ?thesis
          by (rule read_input_order [OF ok rd _ ri]) (use q in \<open>auto simp add: in_order_def\<close>)
      next
        case False
        let ?moved = "rd_setCursorTo env (reader st) (tok1 st)"
        let ?st1 = "st\<lparr> peeks := [], reader := snd ?moved \<rparr>"
        have q1: "in_order ?st1" using q by (simp add: in_order_def)
        show ?thesis
        proof (cases "fst ?moved")
          case miss: False
          with r pos prim notend \<open>peeks st \<noteq> []\<close>
          have "st' = ?st1\<lparr> ACTION_BUFFER_EMPTY := False \<rparr>"
            by (simp add: get_input_value_def Let_def)
          with q1 show ?thesis by (simp add: in_order_def)
        next
          case True
          with r pos prim notend \<open>peeks st \<noteq> []\<close>
          have ri: "read_input env scan ?st1 input_type ptr ((tok1 ?st1)\<lparr> tk_type := 0 \<rparr>)
                      (\<lambda>t. ?st1\<lparr> tok1 := t \<rparr>) = Inr (v, st')"
            by (simp add: get_input_value_def Let_def)
          show ?thesis
            by (rule read_input_order [OF ok rd _ ri]) (use q in \<open>auto simp add: in_order_def\<close>)
        qed
      qed
    qed
  qed
qed

lemma in_order_index_jump:
  "scan_ok scan \<Longrightarrow> reader_ok env \<Longrightarrow> in_order st \<Longrightarrow>
   index_jump env scan st idx i = Inr (idx', st') \<Longrightarrow> in_order st'"
  by (auto simp add: index_jump_def Let_def split: if_splits
        dest!: and_then_Inr dest: in_order_get_input_value)

lemma in_order_hash_jump:
  "scan_ok scan \<Longrightarrow> reader_ok env \<Longrightarrow> in_order st \<Longrightarrow>
   hash_jump env scan m st idx i = Inr (idx', st') \<Longrightarrow> in_order st'"
  by (auto simp add: hash_jump_def Let_def split: if_splits
        dest!: and_then_Inr dest: in_order_get_input_value)

lemma exec_loop_in_order:
  assumes ok: "scan_ok scan" and rd: "reader_ok env"
      and fk: "\<forall>f pointer it. fh = Some f \<longrightarrow> shift_offsets (f pointer it) = []"
  shows "in_order st \<Longrightarrow> exec_loop env scan fh n st idx rec fm = Inr (fm', st') \<Longrightarrow>
         in_order st'"
proof (rule exec_loop_preserves [where Q = in_order and env = env and scan = scan and fh = fh])
  fix st :: "'a StateIterator" and i idx
  assume q: "in_order st"
  show "in_order (snd (goto st i idx))"
    using q by (simp add: goto_def Let_def in_order_def)
  show "in_order (set_production st i)"
    using q by (simp add: set_production_def in_order_def)
  show "in_order (push_fail_state env st i)"
    using q by (simp add: push_fail_state_def Let_def in_order_def)
qed (auto intro: in_order_consume in_order_reduce in_order_set_token in_order_fork [OF fk]
       in_order_assert_consume [OF rd] in_order_scan_to [OF ok] in_order_index_jump [OF ok rd]
       in_order_hash_jump [OF ok rd])

lemma emit_all_role: "emit_all st actions = Inr st' \<Longrightarrow> SCANNER st' = SCANNER st"
proof (induction actions arbitrary: st)
  case Nil
  then show ?case by simp
next
  case (Cons a actions)
  from Cons.prems obtain s where s: "emit st a = Inr s" "emit_all s actions = Inr st'"
    by (auto dest!: and_then_Inr)
  from s(1) have "SCANNER s = SCANNER st" by (auto dest!: emit_Inr)
  with Cons.IH [OF s(2)] show ?case by simp
qed

lemma exec_loop_role:
  "exec_loop env scan fh n st idx rec fm = Inr (fm', st') \<Longrightarrow> SCANNER st' = SCANNER st"
proof -
  assume run: "exec_loop env scan fh n st idx rec fm = Inr (fm', st')"
  let ?Q = "\<lambda>s :: 'a StateIterator. SCANNER s = SCANNER st"
  have "?Q st'"
  proof (rule exec_loop_preserves [where Q = ?Q and env = env and scan = scan and fh = fh,
           OF _ _ _ _ _ _ _ _ _ _ _ _ run])
    fix s :: "'a StateIterator" and i j j' s'
    assume q: "?Q s"
    show "?Q (snd (goto s i j))" using q by (simp add: goto_def Let_def)
    show "?Q (set_production s i)" using q by (simp add: set_production_def)
    show "?Q (push_fail_state env s i)" using q by (simp add: push_fail_state_def Let_def)
    show "consume env s i = Inr s' \<Longrightarrow> ?Q s'"
      using q emits_only_consume [OF emits_only_self, of env s i s']
      by (simp add: emits_only_def)
    show "assert_consume env s j i = Inr (j', s') \<Longrightarrow> ?Q s'"
      using q emits_only_assert_consume [OF emits_only_self, of env s j i j' s']
      by (simp add: emits_only_def)
    show "set_token env s i j = Inr (j', s') \<Longrightarrow> ?Q s'"
      using q emits_only_set_token [OF emits_only_self, of env s i j j' s']
      by (simp add: emits_only_def)
    show "index_jump env scan s j i = Inr (j', s') \<Longrightarrow> ?Q s'"
      using q by (auto dest: index_jump_frame)
    show "fork fh s i j = Inr (j', s') \<Longrightarrow> ?Q s'"
      using q by (auto simp add: fork_def Let_def split: option.splits if_splits
                    dest!: and_then_Inr emit_all_role)
  next
    fix s :: "'a StateIterator" and i j j' s' r
    assume q: "?Q s"
    show "reduce s i j r = Inr (j', s') \<Longrightarrow> ?Q s'"
      using q emits_only_reduce [OF emits_only_self, of s i j r j' s']
      by (simp add: emits_only_def)
  next
    fix s :: "'a StateIterator" and i j j' s' and m :: nat
    assume q: "?Q s"
    show "scan_to env scan m s j i = Inr (j', s') \<Longrightarrow> ?Q s'"
      using q by (auto dest: scan_to_frame)
    show "hash_jump env scan m s j i = Inr (j', s') \<Longrightarrow> ?Q s'"
      using q by (auto dest: hash_jump_frame)
  qed simp
  then show ?thesis .
qed

lemma start_in_order:
  assumes ok: "scan_ok scan" and rd: "reader_ok env"
      and fk: "\<forall>f pointer it. fh = Some f \<longrightarrow> shift_offsets (f pointer it) = []"
      and q: "in_order st"
      and ret: "start env scan n st h fh root = Inr st'"
  shows "in_order st' \<and> SCANNER st' = SCANNER st
         \<and> (SCANNER st \<longrightarrow> (\<exists>earlier. rev (emitted st') = TOKEN (tok0 st') # earlier))"
proof -
  let ?st1 = "st\<lparr> handler := h \<rparr>"
  let ?st2 = "if SCANNER ?st1
              then ?st1\<lparr> tok0 := (tok0 ?st1)\<lparr> line_number := rd_line_count env (reader ?st1),
                                                line_offset := rd_line_offset env (reader ?st1) \<rparr> \<rparr>
              else ?st1"
  let ?Q = "\<lambda>s. in_order s \<and> SCANNER s = SCANNER st"
  have q2: "?Q ?st2" using q by (simp add: in_order_def)
  from ret have run: "start_loop env scan fh root n ?st2 False (- 1) = Inr st'"
    by (simp add: start_def Let_def)
  have "\<exists>st_f fm_f lgs_f. ?Q st_f \<and> emit st_f (final_action env st_f fm_f lgs_f root) = Inr st'"
  proof (rule start_loop_preserves [where Q = ?Q, OF _ _ q2 run])
    fix s :: "'a StateIterator" and idx rec fm fm' s' m
    assume a: "?Q s" and e: "exec_loop env scan fh m s idx rec fm = Inr (fm', s')"
    from a e have "in_order s'" by (auto intro: exec_loop_in_order [OF ok rd fk])
    moreover from a e have "SCANNER s' = SCANNER st"
      by (auto dest: exec_loop_role)
    ultimately show "?Q s'" by simp
  next
    fix s :: "'a StateIterator"
    assume "?Q s"
    then show "?Q (s\<lparr> stack := snd (pop_state (stack s)) \<rparr>)"
      by (simp add: in_order_def)
  qed
  then obtain st_f fm_f lgs_f where qf: "?Q st_f"
    and fin: "emit st_f (final_action env st_f fm_f lgs_f root) = Inr st'"
    by blast
  from fin have st': "st' = st_f\<lparr> emitted := emitted st_f @ [final_action env st_f fm_f lgs_f root] \<rparr>"
    by (rule emit_Inr)
  have nosh: "shift_offsets [final_action env st_f fm_f lgs_f root] = []"
    by (simp add: final_action_def Let_def)
  from qf fin nosh have "in_order st'" by (auto intro: in_order_emit_other)
  moreover have "SCANNER st \<longrightarrow> (\<exists>earlier. rev (emitted st') = TOKEN (tok0 st') # earlier)"
    using qf st' by (simp add: final_action_def Let_def)
  moreover have "SCANNER st' = SCANNER st"
    using qf st' by simp
  ultimately show ?thesis by simp
qed


lemma scanner_loop_order:
  assumes ok: "scan_ok scan" and rd: "reader_ok env"
  shows "in_order sc \<Longrightarrow> SCANNER sc \<Longrightarrow>
         scanner_loop env scan n sc current_token ptr = Inr t' \<Longrightarrow>
         byte_offset current_token \<le> byte_offset t' \<and> 0 \<le> byte_length t'"
proof (induction n arbitrary: sc current_token)
  case 0
  then show ?case by simp
next
  case (Suc n)
  from Suc.prems(3) obtain sc' where
    st: "start env scan n sc ScannerHandler (Some (\<lambda>a it. [])) (- 1) = Inr sc'"
    and rest: "(case rev (emitted sc') of
          TOKEN token # earlier \<Rightarrow>
            if tk_type token = skipped_scan_prod env then
              scanner_loop env scan n
                (sc'\<lparr> stack := stack_reset (stack sc') ptr, tok0 := tok1 sc' \<rparr>)
                (current_token\<lparr>
                   codepoint_offset := codepoint_offset current_token + codepoint_length token,
                   byte_offset := byte_offset current_token + byte_length token,
                   line_offset := line_offset token,
                   line_number := line_number token \<rparr>)
                ptr
            else
              Inr (current_token\<lparr>
                     codepoint_length := codepoint_length token,
                     byte_length := byte_length token,
                     tk_type := tk_type token,
                     line_offset := line_offset token,
                     line_number := line_number token \<rparr>)
        | _ \<Rightarrow> Inl ScannerYieldedInvalidAction) = Inr t'"
    by (auto dest!: and_then_Inr)
  have fk: "\<forall>f pointer (it :: 'a StateIterator).
      Some (\<lambda>a (it :: 'a StateIterator). []) = Some f \<longrightarrow> shift_offsets (f pointer it) = []"
    by auto
  from start_in_order [OF ok rd fk Suc.prems(1) st] Suc.prems(2)
  obtain earlier where sc': "in_order sc'" "SCANNER sc'"
      "rev (emitted sc') = TOKEN (tok0 sc') # earlier"
    by auto
  have len: "0 \<le> byte_length (tok0 sc')" using sc'(1) by (simp add: in_order_def)
  show ?case
  proof (cases "tk_type (tok0 sc') = skipped_scan_prod env")
    case True
    let ?sc = "sc'\<lparr> stack := stack_reset (stack sc') ptr, tok0 := tok1 sc' \<rparr>"
    let ?ct = "current_token\<lparr>
                   codepoint_offset := codepoint_offset current_token + codepoint_length (tok0 sc'),
                   byte_offset := byte_offset current_token + byte_length (tok0 sc'),
                   line_offset := line_offset (tok0 sc'),
                   line_number := line_number (tok0 sc') \<rparr>"
    from rest sc'(3) True have run: "scanner_loop env scan n ?sc ?ct ptr = Inr t'"
      by simp
    have "in_order ?sc" "SCANNER ?sc"
      using sc'(1) sc'(2) by (auto simp add: in_order_def)
    from Suc.IH [OF this run] len show ?thesis by simp
  next
    case False
    with rest sc'(3) len show ?thesis by auto
  qed
qed

lemma scanner_ok: "reader_ok env \<Longrightarrow> scan_ok (scanner env d n)"
proof (induction d)
  case 0
  then show ?case by (simp add: scan_ok_def)
next
  case (Suc d)
  from Suc.IH [OF Suc.prems] have ok: "scan_ok (scanner env d n)" .
  show ?case
    unfolding scan_ok_def
  proof (intro allI impI)
    fix r bc and t :: KernelToken and p t'
    assume len: "0 \<le> byte_length t" and run: "scanner env (Suc d) n r bc t p = Inr t'"
    let ?sc = "(StateIterator_new (snd (rd_setCursorTo env r t)) bc p True)
                 \<lparr> tok1 := t, tok0 := t \<rparr>"
    from run have lp: "scanner_loop env (scanner env d n) n ?sc t p = Inr t'"
      by (simp add: Let_def)
    have "in_order ?sc" "SCANNER ?sc"
      using len by (simp_all add: in_order_def StateIterator_new_def)
    from scanner_loop_order [OF ok Suc.prems this lp]
    show "byte_offset t \<le> byte_offset t' \<and> 0 \<le> byte_length t'" .
  qed
qed

lemma last_end_append: "last_end e (xs @ ys) = last_end (last_end e xs) ys"
  by (induction e xs rule: last_end.induct) simp_all

lemma skips_at_gaps_append:
  "skips_at_gaps e xs \<Longrightarrow> skips_at_gaps (last_end e xs) ys \<Longrightarrow> skips_at_gaps e (xs @ ys)"
  by (induction e xs rule: skips_at_gaps.induct) simp_all

lemma skips_only_at_gaps_append:
  "skips_only_at_gaps e xs \<Longrightarrow> skips_only_at_gaps (last_end e xs) ys \<Longrightarrow>
   skips_only_at_gaps e (xs @ ys)"
  by (induction e xs rule: skips_only_at_gaps.induct) simp_all

lemma gaps_exact_frame:
  "gaps_exact st \<Longrightarrow> SCANNER st' = SCANNER st \<Longrightarrow> emitted st' = emitted st \<Longrightarrow>
   tok0 st' = tok0 st \<Longrightarrow> gaps_exact st'"
  by (simp add: gaps_exact_def)

lemma gaps_exact_emit_other:
  "gaps_exact st \<Longrightarrow> emit st a = Inr st' \<Longrightarrow> \<not> shift_or_skip a \<Longrightarrow> gaps_exact st'"
  by (cases a)
     (auto simp add: gaps_exact_def last_end_append intro!: skips_at_gaps_append dest!: emit_Inr)

lemma gaps_exact_consume:
  "gaps_exact st \<Longrightarrow> consume env st i = Inr st' \<Longrightarrow> gaps_exact st'"
  by (auto simp add: gaps_exact_def consume_def emitShift_def Let_def advance_token_def
        last_end_append intro!: skips_at_gaps_append split: if_splits
        dest!: and_then_Inr emit_Inr)

lemma gaps_exact_reduce:
  "gaps_exact st \<Longrightarrow> reduce st i idx rec = Inr (idx', st') \<Longrightarrow> gaps_exact st'"
  by (auto simp add: reduce_def emitReduce_def Let_def gaps_exact_def set_production_def
        last_end_append intro!: skips_at_gaps_append split: if_splits
        dest!: and_then_Inr emit_Inr)

lemma gaps_exact_set_token:
  assumes q: "gaps_exact st" and r: "set_token env st i idx = Inr (idx', st')"
      and flag: "js_and i 0x08000000 = 0"
  shows "gaps_exact st'"
proof -
  from r flag obtain s where
    s: "(if js_and i 0x01000000 \<noteq> 0 then consume env st 0 else Inr st) = Inr s"
    and st': "st' = s\<lparr> tok1 := (tok1 s)\<lparr> codepoint_length := js_and i 0xFFFFFF,
                                          byte_length := js_and i 0xFFFFFF \<rparr> \<rparr>"
    by (auto simp add: set_token_def Let_def split: if_splits dest!: and_then_Inr)
  from s q have "gaps_exact s"
    by (auto split: if_splits intro: gaps_exact_consume)
  with st' show ?thesis by (simp add: gaps_exact_def)
qed

lemma gaps_exact_assert_consume:
  assumes q: "gaps_exact st" and r: "assert_consume env st idx i = Inr (idx', st')"
  shows "gaps_exact st'"
proof -
  have upd: "\<And>t. gaps_exact (st\<lparr> tok1 := t \<rparr>)"
    using q by (simp add: gaps_exact_def)
  from r show ?thesis
    by (auto simp add: assert_consume_def Let_def split: if_splits
          dest!: and_then_Inr intro: gaps_exact_consume upd q)
qed

lemma gaps_exact_emit_all:
  "gaps_exact st \<Longrightarrow> emit_all st actions = Inr st' \<Longrightarrow>
   \<forall>a \<in> set actions. \<not> shift_or_skip a \<Longrightarrow> gaps_exact st'"
proof (induction actions arbitrary: st)
  case Nil
  then show ?case by simp
next
  case (Cons a actions)
  from Cons.prems(2) obtain s where s: "emit st a = Inr s" "emit_all s actions = Inr st'"
    by (auto dest!: and_then_Inr)
  from Cons.prems(1) s(1) Cons.prems(3) have "gaps_exact s"
    by (auto intro: gaps_exact_emit_other)
  from Cons.IH [OF this s(2)] Cons.prems(3) show ?case by simp
qed

lemma gaps_exact_fork:
  assumes "\<forall>f pointer it. fh = Some f \<longrightarrow> (\<forall>a \<in> set (f pointer it). \<not> shift_or_skip a)"
  shows "gaps_exact st \<Longrightarrow> fork fh st i idx = Inr (idx', st') \<Longrightarrow> gaps_exact st'"
proof -
  assume q: "gaps_exact st" and r: "fork fh st i idx = Inr (idx', st')"
  have q1: "gaps_exact (st\<lparr> ACTION_BUFFER_EMPTY := False \<rparr>)"
    using q by (simp add: gaps_exact_def)
  from r obtain f where f: "fh = Some f"
    by (cases fh) (simp_all add: fork_def Let_def)
  show ?thesis
  proof (cases "length (f (idx - 1) (st\<lparr> ACTION_BUFFER_EMPTY := False \<rparr>)) > 0")
    case True
    with r f have "emit_all (st\<lparr> ACTION_BUFFER_EMPTY := False \<rparr>)
        (f (idx - 1) (st\<lparr> ACTION_BUFFER_EMPTY := False \<rparr>)) = Inr st'"
      by (auto simp add: fork_def Let_def dest!: and_then_Inr)
    from gaps_exact_emit_all [OF q1 this] assms f show ?thesis by blast
  next
    case False
    with r f have "st' = st\<lparr> ACTION_BUFFER_EMPTY := False \<rparr>"
      by (simp add: fork_def Let_def)
    with q1 show ?thesis by simp
  qed
qed

lemma gaps_exact_step:
  assumes fk: "\<forall>f pointer it. fh = Some f \<longrightarrow> (\<forall>a \<in> set (f pointer it). \<not> shift_or_skip a)"
      and q: "gaps_exact st" and open_token: "\<not> closes_token (st, idx)"
      and run: "exec_step env scan fh m st idx rec fm = Inr r"
  shows "gaps_exact (step_state r)"
proof (rule exec_step_cases [where R = gaps_exact, OF refl refl run])
  fix j s
  assume "js_and (js_shr (word_at (bytecode st) idx) 28) 0xF = 5"
     and "set_token env st (word_at (bytecode st) idx) (idx + 1) = Inr (j, s)"
  with q open_token show "gaps_exact s"
    by (auto simp add: closes_token_def Let_def intro: gaps_exact_set_token)
next
  show "gaps_exact (snd (goto st (word_at (bytecode st) idx) (idx + 1)))"
    using q by (simp add: goto_def Let_def gaps_exact_def)
  show "gaps_exact (set_production st (word_at (bytecode st) idx))"
    using q by (simp add: set_production_def gaps_exact_def)
  show "gaps_exact (push_fail_state env st (word_at (bytecode st) idx))"
    using q by (simp add: push_fail_state_def Let_def gaps_exact_def)
  show "gaps_exact st" by (rule q)
qed (use q in \<open>auto intro: gaps_exact_consume gaps_exact_reduce gaps_exact_fork [OF fk]
       gaps_exact_assert_consume
       dest: scan_to_frame index_jump_frame hash_jump_frame scan_to_parser_frame
         index_jump_parser_frame hash_jump_parser_frame intro: gaps_exact_frame\<close>)

lemma read_input_put:
  assumes ok: "scan_ok scan" and len: "0 \<le> byte_length token"
      and r: "read_input env scan st input_type ptr token put = Inr (v, st')"
  shows "\<exists>t. st' = put t \<and> byte_offset token \<le> byte_offset t"
proof (cases "input_type = 1")
  case True
  with r obtain t where t: "scan (reader st) (bytecode st) token ptr = Inr t" "st' = put t"
    by (auto simp add: read_input_def Let_def dest!: and_then_Inr)
  from ok len t(1) have "byte_offset token \<le> byte_offset t"
    by (auto simp add: scan_ok_def)
  with t(2) show ?thesis by blast
next
  case False
  with r have "st' = put token
      \<or> st' = put (token\<lparr> byte_length := rd_codepoint_byte_length env (reader st),
                           codepoint_length := rd_codepoint_length env (reader st) \<rparr>)
      \<or> st' = put (token\<lparr> byte_length := 1, codepoint_length := 1 \<rparr>)"
    by (auto simp add: read_input_def Let_def split: if_splits)
  then show ?thesis
    by (elim disjE) (rule exI, rule conjI, assumption, simp)+
qed

lemma get_input_value_lookahead:
  assumes ok: "scan_ok scan" and q: "in_order st"
      and r: "get_input_value env scan st input_type token_transition ptr = Inr (v, st')"
  shows "byte_offset (tok1 st) \<le> byte_offset (tok1 st')"
proof (cases "input_type > 0")
  case False
  with r show ?thesis by (simp add: get_input_value_def)
next
  case pos: True
  show ?thesis
  proof (cases "token_transition = 1")
    case True
    let ?token = "if peeks st = [] then tok1 st else last (peeks st)"
    let ?st1 = "st\<lparr> reader := rd_next env (reader st) (byte_length ?token) \<rparr>"
    show ?thesis
    proof (cases "rd_END env (reader ?st1)")
      case True
      with r pos \<open>token_transition = 1\<close> show ?thesis
        by (auto simp add: get_input_value_def Let_def)
    next
      case False
      with r pos \<open>token_transition = 1\<close>
      have "read_input env scan ?st1 input_type ptr
                  (?token\<lparr> tk_type := 0, byte_offset := byte_offset ?token + byte_length ?token \<rparr>)
                  (\<lambda>t. ?st1\<lparr> peeks := peeks ?st1 @ [t] \<rparr>) = Inr (v, st')"
        by (simp add: get_input_value_def Let_def)
      from read_input_result [OF this] show ?thesis by auto
    qed
  next
    case prim: False
    show ?thesis
    proof (cases "rd_END env (reader st)")
      case True
      with r pos prim show ?thesis by (simp add: get_input_value_def)
    next
      case notend: False
      have len: "0 \<le> byte_length (tok1 st)" using q by (simp add: in_order_def)
      show ?thesis
      proof (cases "peeks st = []")
        case True
        with r pos prim notend
        have ri: "read_input env scan st input_type ptr (tok1 st) (\<lambda>t. st\<lparr> tok1 := t \<rparr>)
                    = Inr (v, st')"
          by (simp add: get_input_value_def)
        from read_input_put [OF ok len ri] show ?thesis by auto
      next
        case False
        let ?moved = "rd_setCursorTo env (reader st) (tok1 st)"
        let ?st1 = "st\<lparr> peeks := [], reader := snd ?moved \<rparr>"
        show ?thesis
        proof (cases "fst ?moved")
          case miss: False
          with r pos prim notend \<open>peeks st \<noteq> []\<close>
          have "st' = ?st1\<lparr> ACTION_BUFFER_EMPTY := False \<rparr>"
            by (simp add: get_input_value_def Let_def)
          then show ?thesis by simp
        next
          case True
          with r pos prim notend \<open>peeks st \<noteq> []\<close>
          have ri: "read_input env scan ?st1 input_type ptr ((tok1 ?st1)\<lparr> tk_type := 0 \<rparr>)
                      (\<lambda>t. ?st1\<lparr> tok1 := t \<rparr>) = Inr (v, st')"
            by (simp add: get_input_value_def Let_def)
          have "0 \<le> byte_length ((tok1 ?st1)\<lparr> tk_type := 0 \<rparr>)" using len by simp
          from read_input_put [OF ok this ri] show ?thesis by auto
        qed
      qed
    qed
  qed
qed

lemma index_jump_lookahead:
  "scan_ok scan \<Longrightarrow> in_order st \<Longrightarrow> index_jump env scan st idx i = Inr (idx', st') \<Longrightarrow>
   byte_offset (tok1 st) \<le> byte_offset (tok1 st')"
  by (auto simp add: index_jump_def Let_def split: if_splits
        dest!: and_then_Inr dest: get_input_value_lookahead)

lemma hash_jump_lookahead:
  "scan_ok scan \<Longrightarrow> in_order st \<Longrightarrow> hash_jump env scan m st idx i = Inr (idx', st') \<Longrightarrow>
   byte_offset (tok1 st) \<le> byte_offset (tok1 st')"
  by (auto simp add: hash_jump_def Let_def split: if_splits
        dest!: and_then_Inr dest: get_input_value_lookahead)

lemma scan_to_lookahead:
  assumes ok: "scan_ok scan" and q: "in_order st"
      and r: "scan_to env scan m st idx i = Inr (idx', st')"
  shows "byte_offset (tok1 st) \<le> byte_offset (tok1 st')"
proof -
  let ?temp = "if js_and i 0x00100000 > 0
               then (tok1 st)\<lparr> tk_type := 0,
                      byte_offset := byte_offset (tok0 st),
                      codepoint_offset := codepoint_offset (tok0 st),
                      byte_length := 0, codepoint_length := 0 \<rparr>
               else (tok1 st)\<lparr> tk_type := 0 \<rparr>"
  from r obtain found where
    lp: "scan_to_loop env scan (reader st) (bytecode st) (word_at (bytecode st) idx)
           (idx + 1) (idx + 1 + js_and i 0xFFFF) m ?temp = Inr found"
    and st': "st' = (case found of None \<Rightarrow> st
                     | Some t \<Rightarrow> if js_and i 0x00100000 > 0 then st else st\<lparr> tok1 := t \<rparr>)"
    by (auto simp add: scan_to_def Let_def split: option.splits dest!: and_then_Inr)
  show ?thesis
  proof (cases found)
    case None
    with st' show ?thesis by simp
  next
    case (Some t)
    show ?thesis
    proof (cases "js_and i 0x00100000 > 0")
      case True
      with st' Some show ?thesis by simp
    next
      case False
      have "0 \<le> byte_length ?temp" using q False by (simp add: in_order_def)
      from scan_to_loop_order [OF ok this] lp Some False
      have "byte_offset (tok1 st) \<le> byte_offset t \<and> 0 \<le> byte_length t"
        by auto
      with st' Some False show ?thesis by simp
    qed
  qed
qed

lemma gaps_sound_frame:
  "gaps_sound st \<Longrightarrow> SCANNER st' = SCANNER st \<Longrightarrow> emitted st' = emitted st \<Longrightarrow>
   tok0 st' = tok0 st \<Longrightarrow> byte_offset (tok1 st) \<le> byte_offset (tok1 st') \<Longrightarrow>
   gaps_sound st'"
  by (simp add: gaps_sound_def)

lemma gaps_sound_emit_other:
  "gaps_sound st \<Longrightarrow> emit st a = Inr st' \<Longrightarrow> \<not> shift_or_skip a \<Longrightarrow> gaps_sound st'"
  by (cases a)
     (auto simp add: gaps_sound_def last_end_append intro!: skips_only_at_gaps_append
        dest!: emit_Inr)

lemma gaps_sound_consume:
  "in_order st \<Longrightarrow> gaps_sound st \<Longrightarrow> consume env st i = Inr st' \<Longrightarrow> gaps_sound st'"
  by (auto simp add: gaps_sound_def in_order_def consume_def emitShift_def Let_def
        advance_token_def last_end_append intro!: skips_only_at_gaps_append split: if_splits
        dest!: and_then_Inr emit_Inr)

lemma gaps_sound_reduce:
  "gaps_sound st \<Longrightarrow> reduce st i idx rec = Inr (idx', st') \<Longrightarrow> gaps_sound st'"
  by (auto simp add: reduce_def emitReduce_def Let_def gaps_sound_def set_production_def
        last_end_append intro!: skips_only_at_gaps_append split: if_splits
        dest!: and_then_Inr emit_Inr)

lemma gaps_sound_set_token:
  assumes o: "in_order st" and q: "gaps_sound st"
      and r: "set_token env st i idx = Inr (idx', st')"
  shows "gaps_sound st'"
proof -
  from r obtain s where
    s: "(if js_and i 0x01000000 \<noteq> 0 then consume env st 0 else Inr st) = Inr s"
    and st': "st' = (if js_and i 0x08000000 \<noteq> 0 then
                s\<lparr> production_id := js_and i 0xFFFFFF,
                   tok0 := (tok0 s)\<lparr>
                     tk_type := js_and i 0xFFFFFF,
                     byte_length := byte_offset (tok1 s) - byte_offset (tok0 s),
                     codepoint_length := codepoint_offset (tok1 s) - codepoint_offset (tok0 s) \<rparr> \<rparr>
              else s\<lparr> tok1 := (tok1 s)\<lparr> codepoint_length := js_and i 0xFFFFFF,
                                      byte_length := js_and i 0xFFFFFF \<rparr> \<rparr>)"
    by (auto simp add: set_token_def Let_def split: if_splits dest!: and_then_Inr)
  from s o q have "gaps_sound s"
    by (auto split: if_splits intro: gaps_sound_consume)
  with st' show ?thesis
    by (auto simp add: gaps_sound_def)
qed

lemma gaps_sound_assert_consume:
  assumes ok: "reader_ok env" and o: "in_order st" and q: "gaps_sound st"
      and r: "assert_consume env st idx i = Inr (idx', st')"
  shows "gaps_sound st'"
proof -
  have len: "0 \<le> rd_codepoint_byte_length env (reader st)"
    using ok by (simp add: reader_ok_def)
  have u1: "in_order (st\<lparr> tok1 := (tok1 st)\<lparr> byte_length := 1, codepoint_length := 1 \<rparr> \<rparr>)"
    using o by (simp add: in_order_def)
  have u2: "in_order (st\<lparr> tok1 := (tok1 st)\<lparr>
              byte_length := rd_codepoint_byte_length env (reader st),
              codepoint_length := rd_codepoint_length env (reader st) \<rparr> \<rparr>)"
    using o len by (simp add: in_order_def)
  have v1: "gaps_sound (st\<lparr> tok1 := (tok1 st)\<lparr> byte_length := 1, codepoint_length := 1 \<rparr> \<rparr>)"
    using q by (simp add: gaps_sound_def)
  have v2: "gaps_sound (st\<lparr> tok1 := (tok1 st)\<lparr>
              byte_length := rd_codepoint_byte_length env (reader st),
              codepoint_length := rd_codepoint_length env (reader st) \<rparr> \<rparr>)"
    using q by (simp add: gaps_sound_def)
  from r show ?thesis
    by (auto simp add: assert_consume_def Let_def split: if_splits
          dest!: and_then_Inr
          intro: gaps_sound_consume [OF u1 v1] gaps_sound_consume [OF u2 v2]
            gaps_sound_consume [OF o q] v1 v2)
qed

lemma gaps_sound_emit_all:
  "gaps_sound st \<Longrightarrow> emit_all st actions = Inr st' \<Longrightarrow>
   \<forall>a \<in> set actions. \<not> shift_or_skip a \<Longrightarrow> gaps_sound st'"
proof (induction actions arbitrary: st)
  case Nil
  then show ?case by simp
next
  case (Cons a actions)
  from Cons.prems(2) obtain s where s: "emit st a = Inr s" "emit_all s actions = Inr st'"
    by (auto dest!: and_then_Inr)
  from Cons.prems(1) s(1) Cons.prems(3) have "gaps_sound s"
    by (auto intro: gaps_sound_emit_other)
  from Cons.IH [OF this s(2)] Cons.prems(3) show ?case by simp
qed

lemma gaps_sound_fork:
  assumes "\<forall>f pointer it. fh = Some f \<longrightarrow> (\<forall>a \<in> set (f pointer it). \<not> shift_or_skip a)"
  shows "gaps_sound st \<Longrightarrow> fork fh st i idx = Inr (idx', st') \<Longrightarrow> gaps_sound st'"
proof -
  assume q: "gaps_sound st" and r: "fork fh st i idx = Inr (idx', st')"
  have q1: "gaps_sound (st\<lparr> ACTION_BUFFER_EMPTY := False \<rparr>)"
    using q by (simp add: gaps_sound_def)
  from r obtain f where f: "fh = Some f"
    by (cases fh) (simp_all add: fork_def Let_def)
  show ?thesis
  proof (cases "length (f (idx - 1) (st\<lparr> ACTION_BUFFER_EMPTY := False \<rparr>)) > 0")
    case True
    with r f have "emit_all (st\<lparr> ACTION_BUFFER_EMPTY := False \<rparr>)
        (f (idx - 1) (st\<lparr> ACTION_BUFFER_EMPTY := False \<rparr>)) = Inr st'"
      by (auto simp add: fork_def Let_def dest!: and_then_Inr)
    from gaps_sound_emit_all [OF q1 this] assms f show ?thesis by blast
  next
    case False
    with r f have "st' = st\<lparr> ACTION_BUFFER_EMPTY := False \<rparr>"
      by (simp add: fork_def Let_def)
    with q1 show ?thesis by simp
  qed
qed

lemma no_shift_replayed:
  "\<forall>a \<in> set actions. \<not> shift_or_skip a \<Longrightarrow> shift_offsets actions = []"
  by (induction actions rule: shift_offsets.induct) simp_all

lemma exec_loop_gaps_sound:
  assumes ok: "scan_ok scan" and rd: "reader_ok env"
      and fk: "\<forall>f pointer it. fh = Some f \<longrightarrow> (\<forall>a \<in> set (f pointer it). \<not> shift_or_skip a)"
  shows "in_order st \<and> gaps_sound st \<Longrightarrow>
         exec_loop env scan fh n st idx rec fm = Inr (fm', st') \<Longrightarrow>
         in_order st' \<and> gaps_sound st'"
proof -
  have fk': "\<forall>f pointer it. fh = Some f \<longrightarrow> shift_offsets (f pointer it) = []"
    using fk by (auto intro: no_shift_replayed)
  assume q: "in_order st \<and> gaps_sound st"
     and run: "exec_loop env scan fh n st idx rec fm = Inr (fm', st')"
  from q run have "in_order st'"
    by (auto intro: exec_loop_in_order [OF ok rd fk'])
  moreover have "in_order st' \<and> gaps_sound st'"
  proof (rule exec_loop_preserves [where Q = "\<lambda>s. in_order s \<and> gaps_sound s" and env = env
            and scan = scan and fh = fh, OF _ _ _ _ _ _ _ _ _ _ _ q run])
    fix s :: "'a StateIterator" and i j
    assume a: "in_order s \<and> gaps_sound s"
    show "in_order (snd (goto s i j)) \<and> gaps_sound (snd (goto s i j))"
      using a by (simp add: goto_def Let_def in_order_def gaps_sound_def)
    show "in_order (set_production s i) \<and> gaps_sound (set_production s i)"
      using a by (simp add: set_production_def in_order_def gaps_sound_def)
    show "in_order (push_fail_state env s i) \<and> gaps_sound (push_fail_state env s i)"
      using a by (simp add: push_fail_state_def Let_def in_order_def gaps_sound_def)
  next
    fix s :: "'a StateIterator" and i s'
    assume "in_order s \<and> gaps_sound s" and "consume env s i = Inr s'"
    then show "in_order s' \<and> gaps_sound s'"
      by (auto intro: in_order_consume gaps_sound_consume)
  next
    fix s :: "'a StateIterator" and i j r j' s'
    assume "in_order s \<and> gaps_sound s" and "reduce s i j r = Inr (j', s')"
    then show "in_order s' \<and> gaps_sound s'"
      by (auto intro: in_order_reduce gaps_sound_reduce)
  next
    fix s :: "'a StateIterator" and i j j' s'
    assume "in_order s \<and> gaps_sound s" and "set_token env s i j = Inr (j', s')"
    then show "in_order s' \<and> gaps_sound s'"
      by (auto intro: in_order_set_token gaps_sound_set_token)
  next
    fix s :: "'a StateIterator" and i j j' s'
    assume "in_order s \<and> gaps_sound s" and "fork fh s i j = Inr (j', s')"
    then show "in_order s' \<and> gaps_sound s'"
      by (auto intro: in_order_fork [OF fk'] gaps_sound_fork [OF fk])
  next
    fix s :: "'a StateIterator" and i j j' s' and m :: nat
    assume a: "in_order s \<and> gaps_sound s" and r: "scan_to env scan m s j i = Inr (j', s')"
    from a r have "in_order s'" by (auto intro: in_order_scan_to [OF ok])
    moreover from a r have "gaps_sound s'"
      by (auto intro!: gaps_sound_frame [of s s'] dest: scan_to_frame scan_to_parser_frame
            scan_to_lookahead [OF ok])
    ultimately show "in_order s' \<and> gaps_sound s'" by simp
  next
    fix s :: "'a StateIterator" and i j j' s'
    assume a: "in_order s \<and> gaps_sound s" and r: "index_jump env scan s j i = Inr (j', s')"
    from a r have "in_order s'" by (auto intro: in_order_index_jump [OF ok rd])
    moreover from a r have "gaps_sound s'"
      by (auto intro!: gaps_sound_frame [of s s'] dest: index_jump_frame index_jump_parser_frame
            index_jump_lookahead [OF ok])
    ultimately show "in_order s' \<and> gaps_sound s'" by simp
  next
    fix s :: "'a StateIterator" and i j j' s' and m :: nat
    assume a: "in_order s \<and> gaps_sound s" and r: "hash_jump env scan m s j i = Inr (j', s')"
    from a r have "in_order s'" by (auto intro: in_order_hash_jump [OF ok rd])
    moreover from a r have "gaps_sound s'"
      by (auto intro!: gaps_sound_frame [of s s'] dest: hash_jump_frame hash_jump_parser_frame
            hash_jump_lookahead [OF ok])
    ultimately show "in_order s' \<and> gaps_sound s'" by simp
  next
    fix s :: "'a StateIterator" and i j j' s'
    assume "in_order s \<and> gaps_sound s" and "assert_consume env s j i = Inr (j', s')"
    then show "in_order s' \<and> gaps_sound s'"
      by (auto intro: in_order_assert_consume [OF rd] gaps_sound_assert_consume [OF rd])
  qed
  ultimately show ?thesis by simp
qed

lemma final_action_no_shift: "\<not> shift_or_skip (final_action env st fm lgs root)"
  by (simp add: final_action_def Let_def)

lemma start_gaps_sound:
  assumes ok: "scan_ok scan" and rd: "reader_ok env"
      and fk: "\<forall>f pointer it. fh = Some f \<longrightarrow> (\<forall>a \<in> set (f pointer it). \<not> shift_or_skip a)"
      and q: "in_order st" "gaps_sound st"
      and ret: "start env scan n st h fh root = Inr st'"
  shows "in_order st' \<and> gaps_sound st'"
proof -
  let ?st1 = "st\<lparr> handler := h \<rparr>"
  let ?Q = "\<lambda>s. in_order s \<and> gaps_sound s"
  have ns: "\<not> SCANNER st" using q(2) by (simp add: gaps_sound_def)
  have q2: "?Q ?st1" using q by (simp add: in_order_def gaps_sound_def)
  from ret ns have run: "start_loop env scan fh root n ?st1 False (- 1) = Inr st'"
    by (simp add: start_def Let_def)
  have "\<exists>st_f fm_f lgs_f. ?Q st_f \<and> emit st_f (final_action env st_f fm_f lgs_f root) = Inr st'"
  proof (rule start_loop_preserves [where Q = ?Q, OF _ _ q2 run])
    fix s :: "'a StateIterator" and idx rec fm fm' s' m
    assume "?Q s" and "exec_loop env scan fh m s idx rec fm = Inr (fm', s')"
    then show "?Q s'" by (rule exec_loop_gaps_sound [OF ok rd fk])
  next
    fix s :: "'a StateIterator"
    assume "?Q s"
    then show "?Q (s\<lparr> stack := snd (pop_state (stack s)) \<rparr>)"
      by (simp add: in_order_def gaps_sound_def)
  qed
  then obtain st_f fm_f lgs_f where qf: "?Q st_f"
    and fin: "emit st_f (final_action env st_f fm_f lgs_f root) = Inr st'"
    by blast
  have nosh: "shift_offsets [final_action env st_f fm_f lgs_f root] = []"
    by (simp add: final_action_def Let_def)
  from qf fin nosh have "in_order st'" by (auto intro: in_order_emit_other)
  moreover have "gaps_sound st'"
  proof -
    from qf have "gaps_sound st_f" by simp
    from gaps_sound_emit_other [OF this fin final_action_no_shift] show ?thesis .
  qed
  ultimately show ?thesis by simp
qed

lemma start_gaps_exact:
  assumes fk: "\<forall>f pointer it. fh = Some f \<longrightarrow> (\<forall>a \<in> set (f pointer it). \<not> shift_or_skip a)"
      and q: "gaps_exact st"
      and ret: "start env scan n st h fh root = Inr st'"
      and open_tokens: "\<forall>v \<in> set (start_loop_visits env scan fh n (st\<lparr> handler := h \<rparr>) False).
                          \<not> closes_token v"
  shows "gaps_exact st'"
proof -
  let ?st1 = "st\<lparr> handler := h \<rparr>"
  let ?Q = "\<lambda>vs s. (\<forall>v \<in> set vs. \<not> closes_token v) \<longrightarrow> gaps_exact s"
  have ns: "\<not> SCANNER st" using q by (simp add: gaps_exact_def)
  have q2: "?Q [] ?st1" using q by (simp add: gaps_exact_def)
  from ret ns have run: "start_loop env scan fh root n ?st1 False (- 1) = Inr st'"
    by (simp add: start_def Let_def)
  have "\<exists>st_f fm_f lgs_f. ?Q ([] @ start_loop_visits env scan fh n ?st1 False) st_f
          \<and> emit st_f (final_action env st_f fm_f lgs_f root) = Inr st'"
  proof (rule start_loop_visits_preserves [where Q = ?Q, OF _ _ q2 run])
    fix vs :: "('a StateIterator \<times> int) list" and s :: "'a StateIterator" and j m rec fm r
    assume a: "?Q vs s" and e: "exec_step env scan fh m s j rec fm = Inr r"
    show "?Q (vs @ [(s, j)]) (step_state r)"
    proof
      assume all: "\<forall>v \<in> set (vs @ [(s, j)]). \<not> closes_token v"
      with a have "gaps_exact s" "\<not> closes_token (s, j)" by simp_all
      from gaps_exact_step [OF fk this e] show "gaps_exact (step_state r)" .
    qed
  next
    fix vs :: "('a StateIterator \<times> int) list" and s :: "'a StateIterator"
    assume "?Q vs s"
    then show "?Q vs (s\<lparr> stack := snd (pop_state (stack s)) \<rparr>)"
      by (simp add: gaps_exact_def)
  qed
  with open_tokens obtain st_f fm_f lgs_f where qf: "gaps_exact st_f"
    and fin: "emit st_f (final_action env st_f fm_f lgs_f root) = Inr st'"
    by auto
  from gaps_exact_emit_other [OF qf fin final_action_no_shift] show ?thesis .
qed

text \<open>
  Claim C3, as stated, fails: a \<open>SET_TOKEN\<close> with the flag \<open>0x08000000\<close> sets the
  length of \<open>tokens[0]\<close> so that it ends where the lookahead token starts, and
  \<open>emitShift\<close> compares the lookahead token with \<open>tokens[0]\<close>. On the input \<open>x\<close>,
  two spaces, \<open>y\<close> the second image shifts the token at byte 0 of length 1 and then
  the token at byte 3, with no \<open>Skip\<close> between them.
\<close>

theorem skip_missing_at_gap:
  "map_sum id emitted
     (run ex_env 1 12 (ex_parser [120, 32, 32, 121] ex_closed_gap_bytecode 0x400000C)
        CallerHandler None (- 1))
   = Inr [SHIFT \<lparr> tk_type = 0, byte_offset = 0, byte_length = 1, codepoint_offset = 0,
                  codepoint_length = 1, line_number = 0, line_offset = 0 \<rparr>,
          SHIFT \<lparr> tk_type = 88, byte_offset = 3, byte_length = 1, codepoint_offset = 3,
                  codepoint_length = 1, line_number = 0, line_offset = 0 \<rparr>,
          ACCEPT]
   \<and> (3 :: int) \<noteq> 0 + 1
   \<and> \<not> skips_at_gaps 0 (emitted (projr
        (run ex_env 1 12 (ex_parser [120, 32, 32, 121] ex_closed_gap_bytecode 0x400000C)
           CallerHandler None (- 1))))"
  by code_simp

text \<open>
  Claim C3, amended. In a parse session (a new engine in parser role, run with its
  scanner; the reader's codepoint byte length is not negative and the fork handler
  replays no \<open>Shift\<close> and no \<open>Skip\<close>) the \<open>Shift\<close> actions are emitted in input
  order: the byte offsets of the shifted tokens never decrease. A \<open>Skip\<close> is emitted
  only immediately before a \<open>Shift\<close>, and only when the shifted token starts beyond
  the end of the token shifted before it (beyond byte 0 for the first). And if the
  parser executes no \<open>SET_TOKEN\<close> with the flag \<open>0x08000000\<close>, a \<open>Skip\<close> is emitted
  immediately before a \<open>Shift\<close> exactly when the shifted token's \<open>byte_offset\<close>
  differs from that end.
\<close>

theorem shifts_in_order_skips_at_gaps:
  assumes "reader_ok env"
      and "\<forall>f pointer it. fh = Some f \<longrightarrow> (\<forall>a \<in> set (f pointer it). \<not> shift_or_skip a)"
      and "run env d n (StateIterator_new r bc entry_pointer False) CallerHandler fh root = Inr st'"
  shows "sorted (shift_offsets (emitted st'))
     \<and> skips_only_at_gaps 0 (emitted st')
     \<and> ((\<forall>v \<in> set (run_visits env d n (StateIterator_new r bc entry_pointer False)
                       CallerHandler fh). \<not> closes_token v)
          \<longrightarrow> skips_at_gaps 0 (emitted st'))"
proof -
  let ?st = "StateIterator_new r bc entry_pointer False"
  have o: "in_order ?st"
    by (simp add: in_order_def StateIterator_new_def KernelToken_new_def)
  have s: "gaps_sound ?st"
    by (simp add: gaps_sound_def StateIterator_new_def KernelToken_new_def)
  have x: "gaps_exact ?st"
    by (simp add: gaps_exact_def StateIterator_new_def KernelToken_new_def)
  from assms(3) have ret: "start env (scanner env d n) n ?st CallerHandler fh root = Inr st'"
    by (simp add: run_def)
  from start_gaps_sound [OF scanner_ok [OF assms(1)] assms(1) assms(2) o s ret]
  have "sorted (shift_offsets (emitted st'))" "skips_only_at_gaps 0 (emitted st')"
    by (simp_all add: in_order_def gaps_sound_def)
  moreover have "(\<forall>v \<in> set (run_visits env d n ?st CallerHandler fh). \<not> closes_token v)
          \<longrightarrow> skips_at_gaps 0 (emitted st')"
  proof
    assume "\<forall>v \<in> set (run_visits env d n ?st CallerHandler fh). \<not> closes_token v"
    then have "\<forall>v \<in> set (start_loop_visits env (scanner env d n) fh n
                   (?st\<lparr> handler := CallerHandler \<rparr>) False). \<not> closes_token v"
      by (simp add: run_visits_def Let_def StateIterator_new_def)
    from start_gaps_exact [OF assms(2) x ret this]
    show "skips_at_gaps 0 (emitted st')" by (simp add: gaps_exact_def)
  qed
  ultimately show ?thesis by simp
qed


theorem shifts_in_order_skips_at_gaps_witness:
  "sorted (shift_offsets (emitted (projr
      (run ex_env 1 12 (StateIterator_new ([120, 32, 32, 121], 0) ex_gap_bytecode 0x400000C False)
         CallerHandler None (- 1)))))
   \<and> skips_only_at_gaps 0 (emitted (projr
      (run ex_env 1 12 (StateIterator_new ([120, 32, 32, 121], 0) ex_gap_bytecode 0x400000C False)
         CallerHandler None (- 1))))
   \<and> skips_at_gaps 0 (emitted (projr
      (run ex_env 1 12 (StateIterator_new ([120, 32, 32, 121], 0) ex_gap_bytecode 0x400000C False)
         CallerHandler None (- 1))))"
proof -
  have h1: "reader_ok ex_env" by (simp add: reader_ok_def ex_env_def)
  have h2: "\<forall>f pointer (it :: (int list \<times> int) StateIterator).
      None = Some f \<longrightarrow> (\<forall>a \<in> set (f pointer it). \<not> shift_or_skip a)"
    by simp
  have "\<not> isl (run ex_env 1 12
      (StateIterator_new ([120, 32, 32, 121], 0) ex_gap_bytecode 0x400000C False)
         CallerHandler None (- 1))"
    by code_simp
  then have h3: "run ex_env 1 12
      (StateIterator_new ([120, 32, 32, 121], 0) ex_gap_bytecode 0x400000C False)
         CallerHandler None (- 1)
      = Inr (projr (run ex_env 1 12
          (StateIterator_new ([120, 32, 32, 121], 0) ex_gap_bytecode 0x400000C False)
             CallerHandler None (- 1)))"
    by simp
  have h4: "\<forall>v \<in> set (run_visits ex_env 1 12
      (StateIterator_new ([120, 32, 32, 121], 0) ex_gap_bytecode 0x400000C False)
         CallerHandler None). \<not> closes_token v"
    by code_simp
  from shifts_in_order_skips_at_gaps [OF h1 h2 h3] h4 show ?thesis by blast
qed

end
